theory Spec2Isabelle
  imports Main
begin

section \<open>Python values, responses and the outside world\<close>

text \<open>
  The values the client handles: what \<^verbatim>\<open>json.loads\<close> yields (None, bool, number,
  str, list, dict) and raw bytes. A dict is an association list read with \<open>map_of\<close>.
  Numbers are integers; time is counted in whole seconds.
\<close>

datatype pyval =
    PNone
  | PBool bool
  | PInt int
  | PStr string
  | PList "pyval list"
  | PDict "(string \<times> pyval) list"
  | PBytes string

text \<open>Python truthiness, as \<^verbatim>\<open>not x\<close>, \<^verbatim>\<open>if x\<close> and \<^verbatim>\<open>while x\<close> read it.\<close>

fun truthy :: "pyval \<Rightarrow> bool" where
  "truthy PNone = False"
| "truthy (PBool b) = b"
| "truthy (PInt n) = (n \<noteq> 0)"
| "truthy (PStr s) = (s \<noteq> [])"
| "truthy (PList xs) = (xs \<noteq> [])"
| "truthy (PDict kvs) = (kvs \<noteq> [])"
| "truthy (PBytes b) = (b \<noteq> [])"

datatype error =
    SystemExit nat string string
  | RequestException string
  | ValueError
  | KeyError string
  | TypeError
  | AttributeError
  | UnicodeDecodeError

text \<open>
  How a call ends: it returns, it raises, or it blocks for ever on a lock that its own
  thread already holds.
\<close>

datatype 'a result = Return 'a | Raise error | Blocked

text \<open>
  A response of the \<^verbatim>\<open>requests\<close> library. \<open>json_body\<close> is what
  \<^verbatim>\<open>json.loads(content)\<close> yields (\<open>None\<close>: it raises ValueError) and \<open>utf8\<close>
  what \<^verbatim>\<open>content.decode('utf-8')\<close> yields (\<open>None\<close>: it raises UnicodeDecodeError).
\<close>

record response =
  status_code :: nat
  content :: string
  content_type :: "string option"
  resp_text :: string
  json_body :: "pyval option"
  utf8 :: "string option"

definition ok :: "response \<Rightarrow> bool" where
  "ok r = (\<not> (400 \<le> status_code r \<and> status_code r < 600))"

text \<open>
  A request as handed to \<^verbatim>\<open>requests.request\<close>. \<open>data\<close> stands for the JSON text
  of the value it holds (\<^verbatim>\<open>json.dumps\<close>), \<open>None\<close> for no body.
\<close>

record request =
  action :: string
  url :: string
  headers :: "(string \<times> pyval) list"
  params :: pyval
  data :: "pyval option"
  verify :: bool
  timeout :: pyval

datatype reply = Response response | Fails string

text \<open>The three places that call \<^verbatim>\<open>self.logger.error\<close>.\<close>

datatype log_entry =
    Request_exception_during_attempt nat string
  | JSON_parsing_error
  | API_error_response

datatype event = Sent request | Slept nat | Logged log_entry

text \<open>
  The world outside the client: the clock, the replies the transport will give (each with
  the time its request takes, the next one first), and the trace of what the client did.
\<close>

record world =
  now :: int
  replies :: "nat \<Rightarrow> int \<times> reply"
  trace :: "event list"

definition send :: "world \<Rightarrow> request \<Rightarrow> reply \<times> world" where
  "send w req =
     (let (d, rep) = replies w 0
      in (rep, w\<lparr>now := now w + d,
                 replies := (\<lambda>k. replies w (Suc k)),
                 trace := trace w @ [Sent req]\<rparr>))"

definition sleep :: "world \<Rightarrow> nat \<Rightarrow> world" where
  "sleep w s = w\<lparr>now := now w + int s, trace := trace w @ [Slept s]\<rparr>"

definition log_error :: "world \<Rightarrow> log_entry \<Rightarrow> world" where
  "log_error w msg = w\<lparr>trace := trace w @ [Logged msg]\<rparr>"

section \<open>The client\<close>

text \<open>
  The attributes of \<^verbatim>\<open>self\<close> that the mixin \<^verbatim>\<open>PrismaCloudAPIMixin\<close> reads and
  writes. \<open>token_limit\<close> is set nowhere in the sources and is a parameter here.
  \<open>lock_reentrant\<close> tells what kind of lock the host object supplies:
  \<^verbatim>\<open>PrismaCloudAPI.__init__\<close> creates a \<^verbatim>\<open>threading.Lock()\<close>, which is not
  re-entrant (\<open>False\<close>). \<open>lock_depth\<close> counts how often the running thread holds the
  lock; one thread runs, so a lock that it cannot take is one that it holds itself.

  \<^verbatim>\<open>suppress_warnings_when_verify_false\<close> and the prints under \<^verbatim>\<open>self.debug\<close> touch
  nothing that is modelled and are left out. The clock moves only while a request is under
  way and during \<^verbatim>\<open>time.sleep\<close>.
\<close>

record client =
  api :: string
  identity :: pyval
  secret :: pyval
  user_agent :: string
  client_verify :: bool
  client_timeout :: pyval
  token :: pyval
  token_expiry :: "int option"
  token_limit :: int
  retry_waits :: "nat list"
  lock_reentrant :: bool
  lock_depth :: nat

text \<open>\<^verbatim>\<open>with self.lock:\<close> on entry and on exit.\<close>

definition acquire :: "client \<Rightarrow> client option" where
  "acquire c =
     (if lock_depth c = 0 \<or> lock_reentrant c
      then Some (c\<lparr>lock_depth := Suc (lock_depth c)\<rparr>)
      else None)"

definition release :: "client \<Rightarrow> client" where
  "release c = c\<lparr>lock_depth := lock_depth c - 1\<rparr>"

subsection \<open>Retries\<close>

text \<open>
  \<^verbatim>\<open>_perform_request_with_retries\<close>: one attempt per entry of \<open>retry_waits\<close>, each
  followed by its sleep unless it succeeded, then one final attempt whose outcome is
  passed on as it is. \<open>Fails\<close> stands for a \<^verbatim>\<open>RequestException\<close> of the transport,
  which the loop catches and logs and the final attempt lets through.
\<close>

fun retry_loop :: "nat \<Rightarrow> nat list \<Rightarrow> world \<Rightarrow> request \<Rightarrow> response result \<times> world" where
  "retry_loop attempt [] w req =
     (case send w req of
        (Response r, w1) \<Rightarrow> (Return r, w1)
      | (Fails e, w1) \<Rightarrow> (Raise (RequestException e), w1))"
| "retry_loop attempt (wait_time # waits) w req =
     (case send w req of
        (Response r, w1) \<Rightarrow>
          if ok r then (Return r, w1)
          else retry_loop (Suc attempt) waits (sleep w1 wait_time) req
      | (Fails e, w1) \<Rightarrow>
          retry_loop (Suc attempt) waits
            (sleep (log_error w1 (Request_exception_during_attempt attempt e)) wait_time) req)"

definition request_of ::
  "client \<Rightarrow> string \<Rightarrow> string \<Rightarrow> (string \<times> pyval) list \<Rightarrow> pyval \<Rightarrow> pyval option \<Rightarrow> request" where
  "request_of c act u hdrs ps d =
     \<lparr>action = act, url = u, headers = hdrs, params = ps, data = d,
      verify = client_verify c, timeout = client_timeout c\<rparr>"

definition perform_request_with_retries ::
  "client \<Rightarrow> world \<Rightarrow> string \<Rightarrow> string \<Rightarrow> (string \<times> pyval) list \<Rightarrow> pyval \<Rightarrow> pyval option
     \<Rightarrow> response result \<times> world" where
  "perform_request_with_retries c w act u hdrs ps d =
     retry_loop 1 (retry_waits c) w (request_of c act u hdrs ps d)"

subsection \<open>The token\<close>

text \<open>\<^verbatim>\<open>d.get(k)\<close>: only a dict has it.\<close>

fun py_get :: "pyval \<Rightarrow> string \<Rightarrow> pyval result" where
  "py_get (PDict kvs) k = Return (case map_of kvs k of None \<Rightarrow> PNone | Some v \<Rightarrow> v)"
| "py_get _ k = Raise AttributeError"

text \<open>
  The body of \<^verbatim>\<open>with self.lock:\<close> that \<^verbatim>\<open>login\<close> and \<^verbatim>\<open>extend_login\<close>
  share: decode the response, store the token, then the expiry. The lock is released
  also when the body raises.
\<close>

definition store_token :: "client \<Rightarrow> world \<Rightarrow> response \<Rightarrow> unit result \<times> client" where
  "store_token c w r =
     (case acquire c of
        None \<Rightarrow> (Blocked, c)
      | Some c1 \<Rightarrow>
          (case json_body r of
             None \<Rightarrow> (Raise ValueError, release c1)
           | Some api_response_data \<Rightarrow>
               (case py_get api_response_data ''token'' of
                  Return t \<Rightarrow>
                    (Return (),
                     release (c1\<lparr>token := t, token_expiry := Some (now w + token_limit c1)\<rparr>))
                | Raise e \<Rightarrow> (Raise e, release c1)
                | Blocked \<Rightarrow> (Blocked, c1))))"

text \<open>\<^verbatim>\<open>error_and_exit\<close> raises SystemExit with the status code and the message.\<close>

definition error_and_exit :: "nat \<Rightarrow> string \<Rightarrow> error" where
  "error_and_exit error_code error_message = SystemExit error_code error_message []"

definition responded_with_an_error :: "string \<Rightarrow> response \<Rightarrow> string" where
  "responded_with_an_error u r =
     ''API ('' @ u @ '') responded with an error'' @ [CHR 0x0A] @ resp_text r"

definition json_headers :: "client \<Rightarrow> (string \<times> pyval) list" where
  "json_headers c = [(''Content-Type'', PStr ''application/json''),
                     (''User-Agent'', PStr (user_agent c))]"

definition auth_headers :: "client \<Rightarrow> (string \<times> pyval) list" where
  "auth_headers c = [(''Content-Type'', PStr ''application/json''),
                     (''User-Agent'', PStr (user_agent c)),
                     (''x-redlock-auth'', token c)]"

definition login :: "client \<Rightarrow> world \<Rightarrow> string \<Rightarrow> unit result \<times> client \<times> world" where
  "login c w url0 =
     (let u = (if url0 = [] then ''https://'' @ api c @ ''/login'' else url0);
          request_headers = json_headers c;
          body_params = PDict [(''username'', identity c), (''password'', secret c)]
      in case perform_request_with_retries c w ''POST'' u request_headers PNone (Some body_params) of
           (Return api_response, w1) \<Rightarrow>
             if ok api_response
             then (case store_token c w1 api_response of (res, c1) \<Rightarrow> (res, c1, w1))
             else (Raise (error_and_exit (status_code api_response)
                            (responded_with_an_error u api_response)), c, w1)
         | (Raise e, w1) \<Rightarrow> (Raise e, c, w1)
         | (Blocked, w1) \<Rightarrow> (Blocked, c, w1))"

definition extend_login :: "client \<Rightarrow> world \<Rightarrow> unit result \<times> client \<times> world" where
  "extend_login c w =
     (let u = ''https://'' @ api c @ ''/auth_token/extend'';
          request_headers = auth_headers c
      in case perform_request_with_retries c w ''GET'' u request_headers PNone None of
           (Return api_response, w1) \<Rightarrow>
             if ok api_response
             then (case store_token c w1 api_response of (res, c1) \<Rightarrow> (res, c1, w1))
             else (Raise (error_and_exit (status_code api_response)
                            (responded_with_an_error u api_response)), c, w1)
         | (Raise e, w1) \<Rightarrow> (Raise e, c, w1)
         | (Blocked, w1) \<Rightarrow> (Blocked, c, w1))"

text \<open>
  \<^verbatim>\<open>is_token_expired\<close> of the mixin: under the lock, an expiry that is unset or falsy
  counts as expired, any other is compared with the clock. (\<^verbatim>\<open>PrismaCloudAPI\<close> has a
  method of the same name and shape over \<^verbatim>\<open>datetime\<close> values.)
\<close>

definition expiry_passed :: "int option \<Rightarrow> int \<Rightarrow> bool" where
  "expiry_passed expiry t =
     (case expiry of
        None \<Rightarrow> True
      | Some e \<Rightarrow> if e \<noteq> 0 then t \<ge> e else True)"

definition is_token_expired :: "client \<Rightarrow> world \<Rightarrow> bool result \<times> client" where
  "is_token_expired c w =
     (case acquire c of
        None \<Rightarrow> (Blocked, c)
      | Some c1 \<Rightarrow> (Return (expiry_passed (token_expiry c1) (now w)), release c1))"

subsection \<open>execute\<close>

text \<open>\<^verbatim>\<open>d[k]\<close> with a string key, and what \<^verbatim>\<open>list.extend\<close> takes from its argument.\<close>

fun py_getitem :: "pyval \<Rightarrow> string \<Rightarrow> pyval result" where
  "py_getitem (PDict kvs) k =
     (case map_of kvs k of None \<Rightarrow> Raise (KeyError k) | Some v \<Rightarrow> Return v)"
| "py_getitem _ k = Raise TypeError"

fun py_iter :: "pyval \<Rightarrow> pyval list option" where
  "py_iter (PList xs) = Some xs"
| "py_iter (PStr s) = Some (map (\<lambda>ch. PStr [ch]) s)"
| "py_iter (PDict kvs) = Some (map (\<lambda>kv. PStr (fst kv)) kvs)"
| "py_iter (PBytes b) = Some (map (\<lambda>ch. PInt (of_char ch)) b)"
| "py_iter _ = None"

text \<open>
  Leaving a \<^verbatim>\<open>with self.lock:\<close> block: the lock is released however the block ends,
  unless it never ends.
\<close>

definition with_release :: "'a result \<times> client \<times> world \<Rightarrow> 'a result \<times> client \<times> world" where
  "with_release x =
     (case x of
        (Blocked, c, w) \<Rightarrow> (Blocked, c, w)
      | (res, c, w) \<Rightarrow> (res, release c, w))"

text \<open>The first block of \<^verbatim>\<open>execute\<close>: log in, under the lock, when there is no valid token.\<close>

definition ensure_token :: "client \<Rightarrow> world \<Rightarrow> unit result \<times> client \<times> world" where
  "ensure_token c w =
     (case acquire c of
        None \<Rightarrow> (Blocked, c, w)
      | Some c1 \<Rightarrow>
          if \<not> truthy (token c1) then with_release (login c1 w [])
          else (case is_token_expired c1 w of
                  (Return expired, c2) \<Rightarrow>
                    if expired then with_release (login c2 w [])
                    else (Return (), release c2, w)
                | (Raise e, c2) \<Rightarrow> (Raise e, release c2, w)
                | (Blocked, c2) \<Rightarrow> (Blocked, c2, w)))"

text \<open>
  One pass through the body of \<^verbatim>\<open>while more:\<close>. It either leaves \<^verbatim>\<open>execute\<close>
  (\<open>Stop\<close>) or hands the loop variables \<^verbatim>\<open>results\<close>, \<^verbatim>\<open>more\<close>,
  \<^verbatim>\<open>body_params\<close> and \<^verbatim>\<open>request_headers\<close> to the next pass (\<open>Again\<close>).
\<close>

datatype step =
    Stop "pyval result"
  | Again "pyval list" pyval pyval "(string \<times> pyval) list option"

definition falsy_headers :: "(string \<times> pyval) list option \<Rightarrow> bool" where
  "falsy_headers h = (case h of None \<Rightarrow> True | Some kvs \<Rightarrow> kvs = [])"

definition handle_response ::
  "world \<Rightarrow> response \<Rightarrow> bool \<Rightarrow> bool \<Rightarrow> pyval list \<Rightarrow> pyval \<Rightarrow> pyval
     \<Rightarrow> (string \<times> pyval) list \<Rightarrow> step \<times> world" where
  "handle_response w api_response force paginated results more0 body_params hdrs =
     (if ok api_response then
        if content api_response = [] then (Stop (Return PNone), w)
        else if content_type api_response = Some ''application/x-gzip''
        then (Stop (Return (PBytes (content api_response))), w)
        else if content_type api_response = Some ''text/csv''
        then (case utf8 api_response of
                None \<Rightarrow> (Stop (Raise UnicodeDecodeError), w)
              | Some s \<Rightarrow> (Stop (Return (PStr s)), w))
        else (case json_body api_response of
                None \<Rightarrow>
                  (if force then Stop (Return (PList results))
                   else Stop (Raise (error_and_exit (status_code api_response)
                                       ''Error parsing response'')),
                   log_error w JSON_parsing_error)
              | Some result \<Rightarrow>
                  if paginated then
                    (case py_getitem result ''items'' of
                       Raise e \<Rightarrow> (Stop (Raise e), w)
                     | Blocked \<Rightarrow> (Stop Blocked, w)
                     | Return its \<Rightarrow>
                         (case py_iter its of
                            None \<Rightarrow> (Stop (Raise TypeError), w)
                          | Some xs \<Rightarrow>
                              (case result of
                                 PDict kvs \<Rightarrow>
                                   (case map_of kvs ''nextPageToken'' of
                                      None \<Rightarrow>
                                        (Again (results @ xs) (PBool False) body_params (Some hdrs), w)
                                    | Some npt \<Rightarrow>
                                        (Again (results @ xs) npt
                                           (if truthy npt then PDict [(''pageToken'', npt)]
                                            else body_params)
                                           (Some hdrs), w))
                               | _ \<Rightarrow> (Stop (Raise TypeError), w))))
                  else (Stop (Return result), w))
      else (Again results more0 body_params (Some hdrs), log_error w API_error_response))"

text \<open>The top of the loop body: \<^verbatim>\<open>if self.is_token_expired(): self.extend_login()\<close>.\<close>

definition renew_if_expired :: "client \<Rightarrow> world \<Rightarrow> unit result \<times> client \<times> world" where
  "renew_if_expired c w =
     (case is_token_expired c w of
        (Blocked, c1) \<Rightarrow> (Blocked, c1, w)
      | (Raise e, c1) \<Rightarrow> (Raise e, c1, w)
      | (Return expired, c1) \<Rightarrow> if expired then extend_login c1 w else (Return (), c1, w))"

definition page_step ::
  "client \<Rightarrow> world \<Rightarrow> string \<Rightarrow> string \<Rightarrow> pyval \<Rightarrow> pyval \<Rightarrow> (string \<times> pyval) list option
     \<Rightarrow> bool \<Rightarrow> bool \<Rightarrow> pyval list \<Rightarrow> pyval \<Rightarrow> step \<times> client \<times> world" where
  "page_step c w act endpoint query_params body_params request_headers force paginated results more0 =
     (case renew_if_expired c w of
        (Blocked, c2, w2) \<Rightarrow> (Stop Blocked, c2, w2)
      | (Raise e, c2, w2) \<Rightarrow> (Stop (Raise e), c2, w2)
      | (Return _, c2, w2) \<Rightarrow>
          (let u = ''https://'' @ api c2 @ ''/'' @ endpoint;
               hdrs = (if falsy_headers request_headers then auth_headers c2
                       else the request_headers);
               body_params_json = (if truthy body_params then Some body_params else None)
           in case perform_request_with_retries c2 w2 act u hdrs query_params body_params_json of
                (Blocked, w3) \<Rightarrow> (Stop Blocked, c2, w3)
              | (Raise e, w3) \<Rightarrow> (Stop (Raise e), c2, w3)
              | (Return api_response, w3) \<Rightarrow>
                  (case handle_response w3 api_response force paginated results more0
                          body_params hdrs of
                     (st, w4) \<Rightarrow> (st, c2, w4))))"

text \<open>
  \<^verbatim>\<open>while more:\<close> and the final \<^verbatim>\<open>return results\<close>. The loop has no bound of
  its own, so the model counts passes down from \<open>fuel\<close>; \<open>None\<close> means that the loop
  was still running when the fuel ran out.
\<close>

fun execute_loop ::
  "nat \<Rightarrow> client \<Rightarrow> world \<Rightarrow> string \<Rightarrow> string \<Rightarrow> pyval \<Rightarrow> pyval \<Rightarrow> (string \<times> pyval) list option
     \<Rightarrow> bool \<Rightarrow> bool \<Rightarrow> pyval list \<Rightarrow> pyval \<Rightarrow> (pyval result \<times> client \<times> world) option" where
  "execute_loop fuel c w act endpoint query_params body_params request_headers force paginated results more0 =
     (if \<not> truthy more0 then Some (Return (PList results), c, w)
      else (case fuel of
              0 \<Rightarrow> None
            | Suc fuel' \<Rightarrow>
                (case page_step c w act endpoint query_params body_params request_headers
                        force paginated results more0 of
                   (Stop res, c1, w1) \<Rightarrow> Some (res, c1, w1)
                 | (Again results1 more1 body_params1 request_headers1, c1, w1) \<Rightarrow>
                     execute_loop fuel' c1 w1 act endpoint query_params body_params1
                       request_headers1 force paginated results1 more1)))"

definition execute ::
  "nat \<Rightarrow> client \<Rightarrow> world \<Rightarrow> string \<Rightarrow> string \<Rightarrow> pyval \<Rightarrow> pyval \<Rightarrow> (string \<times> pyval) list option
     \<Rightarrow> bool \<Rightarrow> bool \<Rightarrow> (pyval result \<times> client \<times> world) option" where
  "execute fuel c w act endpoint query_params body_params request_headers force paginated =
     (case ensure_token c w of
        (Blocked, c1, w1) \<Rightarrow> Some (Blocked, c1, w1)
      | (Raise e, c1, w1) \<Rightarrow> Some (Raise e, c1, w1)
      | (Return _, c1, w1) \<Rightarrow>
          execute_loop fuel c1 w1 act endpoint query_params body_params request_headers
            force paginated [] (PBool True))"

section \<open>Reading a trace\<close>

text \<open>The requests sent, the delays slept and the errors logged, in the order of the trace.\<close>

definition sent_requests :: "event list \<Rightarrow> request list" where
  "sent_requests tr = concat (map (\<lambda>e. case e of Sent r \<Rightarrow> [r] | _ \<Rightarrow> []) tr)"

definition sleeps :: "event list \<Rightarrow> nat list" where
  "sleeps tr = concat (map (\<lambda>e. case e of Slept s \<Rightarrow> [s] | _ \<Rightarrow> []) tr)"

definition logged :: "event list \<Rightarrow> log_entry list" where
  "logged tr = concat (map (\<lambda>e. case e of Logged l \<Rightarrow> [l] | _ \<Rightarrow> []) tr)"

section \<open>Requests, outcomes and renewals\<close>

text \<open>
  An attempt succeeds when the transport returns a response whose status is a success;
  the outcome of the final attempt is handed to the caller whatever it is.
\<close>

fun succeeds :: "reply \<Rightarrow> bool" where
  "succeeds (Response r) = ok r"
| "succeeds (Fails e) = False"

fun final_outcome :: "reply \<Rightarrow> response result" where
  "final_outcome (Response r) = Return r"
| "final_outcome (Fails e) = Raise (RequestException e)"

text \<open>
  The number of attempts, among those that have a retry slot, that fail before the first
  one that succeeds.
\<close>

definition failed_attempts :: "nat list \<Rightarrow> (nat \<Rightarrow> int \<times> reply) \<Rightarrow> nat" where
  "failed_attempts waits rs =
     length (takeWhile (\<lambda>i. \<not> succeeds (snd (rs i))) [0..<length waits])"

text \<open>What an attempt that failed leaves behind: the log entry of an exception, then the sleep.\<close>

definition after_failure :: "nat \<Rightarrow> nat \<Rightarrow> reply \<Rightarrow> world \<Rightarrow> world" where
  "after_failure a wt rep w1 =
     (case rep of
        Response r \<Rightarrow> sleep w1 wt
      | Fails e \<Rightarrow> sleep (log_error w1 (Request_exception_during_attempt a e)) wt)"

text \<open>Whether the running thread can take the lock.\<close>

definition can_lock :: "client \<Rightarrow> bool" where
  "can_lock c = (lock_depth c = 0 \<or> lock_reentrant c)"

text \<open>The address and the body of the login request.\<close>

definition login_url :: "client \<Rightarrow> string" where
  "login_url c = ''https://'' @ api c @ ''/login''"

definition credentials :: "client \<Rightarrow> pyval" where
  "credentials c = PDict [(''username'', identity c), (''password'', secret c)]"


definition stored_token :: "(string \<times> pyval) list \<Rightarrow> pyval" where
  "stored_token kvs = (case map_of kvs ''token'' of None \<Rightarrow> PNone | Some v \<Rightarrow> v)"

definition renewed :: "client \<Rightarrow> (string \<times> pyval) list \<Rightarrow> int \<Rightarrow> client" where
  "renewed c kvs t = c\<lparr>token := stored_token kvs, token_expiry := Some (t + token_limit c)\<rparr>"

text \<open>The three requests the client sends: the login, the renewal and a data request.\<close>

definition login_request :: "client \<Rightarrow> request" where
  "login_request c =
     request_of c ''POST'' (''https://'' @ api c @ ''/login'') (json_headers c) PNone
       (Some (PDict [(''username'', identity c), (''password'', secret c)]))"


text \<open>The headers of a data request: the caller's, or else the default ones with the token.\<close>

definition effective_headers :: "client \<Rightarrow> (string \<times> pyval) list option \<Rightarrow> (string \<times> pyval) list" where
  "effective_headers c request_headers =
     (if falsy_headers request_headers then auth_headers c else the request_headers)"

definition data_request ::
  "client \<Rightarrow> string \<Rightarrow> string \<Rightarrow> pyval \<Rightarrow> pyval \<Rightarrow> (string \<times> pyval) list option \<Rightarrow> request" where
  "data_request c act endpoint query_params body_params request_headers =
     request_of c act (''https://'' @ api c @ ''/'' @ endpoint)
       (if falsy_headers request_headers then auth_headers c else the request_headers)
       query_params (if truthy body_params then Some body_params else None)"

text \<open>The data request of one pass of the loop, with its retries.\<close>

definition fetch ::
  "client \<Rightarrow> world \<Rightarrow> string \<Rightarrow> string \<Rightarrow> pyval \<Rightarrow> pyval \<Rightarrow> (string \<times> pyval) list option
     \<Rightarrow> response result \<times> world" where
  "fetch c w act endpoint query_params body_params request_headers =
     perform_request_with_retries c w act (''https://'' @ api c @ ''/'' @ endpoint)
       (effective_headers c request_headers) query_params
       (if truthy body_params then Some body_params else None)"

text \<open>A response that is neither empty, nor gzip, nor CSV: it goes to \<^verbatim>\<open>json.loads\<close>.\<close>

definition json_kind :: "response \<Rightarrow> bool" where
  "json_kind r = (content r \<noteq> [] \<and> content_type r \<noteq> Some ''application/x-gzip''
                   \<and> content_type r \<noteq> Some ''text/csv'')"

section \<open>Pages\<close>

text \<open>
  What a page holds: the array under \<^verbatim>\<open>items\<close> of a JSON object, and the value under
  \<^verbatim>\<open>nextPageToken\<close> (False when the key is absent). A page is well formed when it is a
  successful JSON response whose body is an object with an \<^verbatim>\<open>items\<close> array; it continues
  when its \<^verbatim>\<open>nextPageToken\<close> is truthy.
\<close>

definition page_items :: "response \<Rightarrow> pyval list option" where
  "page_items p =
     (case json_body p of
        Some (PDict kvs) \<Rightarrow> (case map_of kvs ''items'' of Some (PList xs) \<Rightarrow> Some xs | _ \<Rightarrow> None)
      | _ \<Rightarrow> None)"

definition items_of :: "response \<Rightarrow> pyval list" where
  "items_of p = (case page_items p of Some xs \<Rightarrow> xs | None \<Rightarrow> [])"

definition next_page_token :: "response \<Rightarrow> pyval" where
  "next_page_token p =
     (case json_body p of
        Some (PDict kvs) \<Rightarrow> (case map_of kvs ''nextPageToken'' of Some t \<Rightarrow> t | None \<Rightarrow> PBool False)
      | _ \<Rightarrow> PBool False)"

definition well_formed_page :: "response \<Rightarrow> bool" where
  "well_formed_page p = (ok p \<and> json_kind p \<and> page_items p \<noteq> None)"

definition continues :: "response \<Rightarrow> bool" where
  "continues p = truthy (next_page_token p)"

text \<open>
  The requests that fetch a sequence of pages: the first carries the caller's body, each
  later one the body \<^verbatim>\<open>{pageToken: nextPageToken}\<close> of the page before it. The headers
  are those of the first request.
\<close>

fun page_requests ::
  "client \<Rightarrow> string \<Rightarrow> string \<Rightarrow> pyval \<Rightarrow> pyval \<Rightarrow> (string \<times> pyval) list option \<Rightarrow> response list
     \<Rightarrow> request list" where
  "page_requests c act ep qp bp rh [] = []"
| "page_requests c act ep qp bp rh (p # ps) =
     data_request c act ep qp bp rh
       # page_requests c act ep qp (PDict [(''pageToken'', next_page_token p)])
           (Some (effective_headers c rh)) ps"

text \<open>
  The next \<open>n\<close> replies of the transport, and the condition that the token has not expired
  at the moment each of the next \<open>n\<close> requests is made, when every request is answered at
  its first attempt.
\<close>

definition upcoming :: "world \<Rightarrow> nat \<Rightarrow> (int \<times> reply) list" where
  "upcoming w n = map (replies w) [0..<n]"

definition valid_at_each_fetch :: "client \<Rightarrow> world \<Rightarrow> nat \<Rightarrow> bool" where
  "valid_at_each_fetch c w n =
     list_all (\<lambda>i. \<not> expiry_passed (token_expiry c) (now w + sum_list (map fst (upcoming w i))))
       [0..<n]"

text \<open>The world after the transport has answered the given requests.\<close>

fun served :: "world \<Rightarrow> request list \<Rightarrow> world" where
  "served w [] = w"
| "served w (q # qs) = served (snd (send w q)) qs"

text \<open>The loop variables after a sequence of continuing pages.\<close>

definition body_after :: "pyval \<Rightarrow> response list \<Rightarrow> pyval" where
  "body_after bp ps = (if ps = [] then bp else PDict [(''pageToken'', next_page_token (last ps))])"

definition headers_after ::
  "client \<Rightarrow> (string \<times> pyval) list option \<Rightarrow> response list \<Rightarrow> (string \<times> pyval) list option" where
  "headers_after c rh ps = (if ps = [] then rh else Some (effective_headers c rh))"

definition more_after :: "pyval \<Rightarrow> response list \<Rightarrow> pyval" where
  "more_after more0 ps = (if ps = [] then more0 else next_page_token (last ps))"

section \<open>Concrete clients and servers\<close>

text \<open>
  The client as \<^verbatim>\<open>PrismaCloudAPI.__init__\<close> leaves it, with the token lifetime of
  \<^verbatim>\<open>update_token\<close>; the client after \<^verbatim>\<open>configure\<close>; and the configured
  client on a host whose lock is re-entrant.
\<close>

definition init_client :: client where
  "init_client =
     \<lparr>api = [], identity = PNone, secret = PNone, user_agent = ''PrismaCloudAPI/'',
      client_verify = True, client_timeout = PNone, token = PNone, token_expiry = None,
      token_limit = 590, retry_waits = [1, 2, 4, 8, 16, 32],
      lock_reentrant = False, lock_depth = 0\<rparr>"

definition configured_client :: client where
  "configured_client =
     init_client\<lparr>api := ''api.prismacloud.io'', identity := PStr ''id'', secret := PStr ''key''\<rparr>"

definition rlock_client :: client where
  "rlock_client = configured_client\<lparr>lock_reentrant := True\<rparr>"

text \<open>A server that gives the listed replies in turn and refuses connections afterwards.\<close>

definition script :: "(int \<times> reply) list \<Rightarrow> nat \<Rightarrow> int \<times> reply" where
  "script xs k = (if k < length xs then xs ! k else (0, Fails ''connection refused''))"

definition world_at :: "int \<Rightarrow> (int \<times> reply) list \<Rightarrow> world" where
  "world_at t xs = \<lparr>now = t, replies = script xs, trace = []\<rparr>"

definition json_response :: "pyval \<Rightarrow> response" where
  "json_response v =
     \<lparr>status_code = 200, content = ''json'', content_type = Some ''application/json'',
      resp_text = ''json'', json_body = Some v, utf8 = Some ''json''\<rparr>"

definition status_response :: "nat \<Rightarrow> response" where
  "status_response code =
     \<lparr>status_code = code, content = ''error'', content_type = None,
      resp_text = ''error'', json_body = None, utf8 = Some ''error''\<rparr>"


definition body_response :: "string option \<Rightarrow> string \<Rightarrow> response" where
  "body_response ct body =
     \<lparr>status_code = 200, content = body, content_type = ct,
      resp_text = body, json_body = None, utf8 = Some body\<rparr>"

text \<open>
  A server that answers the login with token T1 and then serves two pages, the second of
  which ends the pagination.
\<close>

definition page1 :: response where
  "page1 = json_response (PDict [(''items'', PList [PInt 1, PInt 2]), (''nextPageToken'', PStr ''A'')])"

definition page2 :: response where
  "page2 = json_response (PDict [(''items'', PList [PInt 3]), (''nextPageToken'', PStr [])])"

definition token_response :: "string \<Rightarrow> response" where
  "token_response t = json_response (PDict [(''token'', PStr t)])"

definition two_pages :: world where
  "two_pages = world_at 1000 [(1, Response (token_response ''T1'')),
                              (1, Response page1), (1, Response page2)]"

text \<open>
  Servers that answer the login and the first page as before and then send a given
  response; an empty response, a JSON object with no \<^verbatim>\<open>items\<close>, and a body that is
  not JSON.
\<close>

definition page1_then :: "response \<Rightarrow> world" where
  "page1_then r = world_at 1000 [(1, Response (token_response ''T1'')),
                                 (1, Response page1), (1, Response r)]"

definition empty_response :: response where
  "empty_response = body_response None []"

definition page_without_items :: response where
  "page_without_items = json_response (PDict [(''total'', PInt 0)])"

definition malformed_page :: response where
  "malformed_page = body_response (Some ''application/json'') ''{\"items\": [3''"

text \<open>
  A host that does not retry, and a server that answers the login and from then on every
  request with status 503, at once.
\<close>

definition no_retry_client :: client where
  "no_retry_client = rlock_client\<lparr>retry_waits := []\<rparr>"

definition failing_server :: world where
  "failing_server =
     \<lparr>now = 1000,
      replies = (\<lambda>k. if k = 0 then (1, Response (token_response ''T1''))
                     else (0, Response (status_response 503))),
      trace = []\<rparr>"

text \<open>
  A server that answers the login, serves the first page, answers the seven attempts at the
  second page with status 503, and serves the second page when it is asked again.
\<close>

definition recovering_server :: world where
  "recovering_server =
     world_at 1000
       ([(1, Response (token_response ''T1'')), (1, Response page1)]
        @ replicate 7 (0, Response (status_response 503))
        @ [(1, Response page2)])"

text \<open>A server that answers the login and nothing else.\<close>

definition login_only :: world where
  "login_only = world_at 1000 [(1, Response (token_response ''T1''))]"



section \<open>The retry loop\<close>

lemma sent_requests_simps [simp]:
  "sent_requests [] = []"
  "sent_requests (a @ b) = sent_requests a @ sent_requests b"
  "sent_requests (Sent r # tr) = r # sent_requests tr"
  "sent_requests (Slept s # tr) = sent_requests tr"
  "sent_requests (Logged l # tr) = sent_requests tr"
  by (simp_all add: sent_requests_def)

lemma sleeps_simps [simp]:
  "sleeps [] = []"
  "sleeps (a @ b) = sleeps a @ sleeps b"
  "sleeps (Sent r # tr) = sleeps tr"
  "sleeps (Slept s # tr) = s # sleeps tr"
  "sleeps (Logged l # tr) = sleeps tr"
  by (simp_all add: sleeps_def)

lemma logged_simps [simp]:
  "logged [] = []"
  "logged (a @ b) = logged a @ logged b"
  "logged (Sent r # tr) = logged tr"
  "logged (Slept s # tr) = logged tr"
  "logged (Logged l # tr) = l # logged tr"
  by (simp_all add: logged_def)

lemma send_simps:
  "fst (send w req) = snd (replies w 0)"
  "now (snd (send w req)) = now w + fst (replies w 0)"
  "replies (snd (send w req)) = (\<lambda>k. replies w (Suc k))"
  "trace (snd (send w req)) = trace w @ [Sent req]"
  by (simp_all add: send_def split: prod.splits)

lemma after_failure_simps:
  "replies (after_failure a wt rep w1) = replies w1"
  "now (after_failure a wt rep w1) = now w1 + int wt"
  "sent_requests (trace (after_failure a wt rep w1)) = sent_requests (trace w1)"
  "sleeps (trace (after_failure a wt rep w1)) = sleeps (trace w1) @ [wt]"
  by (cases rep; simp add: after_failure_def sleep_def log_error_def)+

lemma retry_loop_Nil:
  "retry_loop a [] w req = (final_outcome (fst (send w req)), snd (send w req))"
  by (cases "send w req"; cases "fst (send w req)") simp_all

lemma retry_loop_Cons:
  "retry_loop a (wt # waits) w req =
     (if succeeds (fst (send w req)) then (final_outcome (fst (send w req)), snd (send w req))
      else retry_loop (Suc a) waits (after_failure a wt (fst (send w req)) (snd (send w req))) req)"
  by (cases "send w req"; cases "fst (send w req)") (simp_all add: after_failure_def)

declare retry_loop.simps [simp del]

lemma retry_loop_char:
  "k \<le> length waits \<Longrightarrow> (\<forall>i<k. \<not> succeeds (snd (replies w i))) \<Longrightarrow>
   (k < length waits \<longrightarrow> succeeds (snd (replies w k))) \<Longrightarrow>
   fst (retry_loop a waits w req) = final_outcome (snd (replies w k)) \<and>
   sent_requests (trace (snd (retry_loop a waits w req)))
     = sent_requests (trace w) @ replicate (Suc k) req \<and>
   sleeps (trace (snd (retry_loop a waits w req))) = sleeps (trace w) @ take k waits \<and>
   last (trace (snd (retry_loop a waits w req))) = Sent req \<and>
   replies (snd (retry_loop a waits w req)) = (\<lambda>j. replies w (j + Suc k))"
proof (induction waits arbitrary: k w a)
  case Nil
  then show ?case by (simp add: retry_loop_Nil send_simps)
next
  case (Cons wt waits)
  show ?case
  proof (cases k)
    case 0
    with Cons.prems show ?thesis by (simp add: retry_loop_Cons send_simps)
  next
    case (Suc k')
    define w2 where "w2 = after_failure a wt (fst (send w req)) (snd (send w req))"
    from Cons.prems Suc have nf: "\<not> succeeds (fst (send w req))" by (simp add: send_simps)
    have step: "retry_loop a (wt # waits) w req = retry_loop (Suc a) waits w2 req"
      using nf by (simp add: retry_loop_Cons w2_def)
    have rw2: "replies w2 = (\<lambda>j. replies w (Suc j))"
      by (simp add: w2_def after_failure_simps send_simps)
    have tr2: "sent_requests (trace w2) = sent_requests (trace w) @ [req]"
      "sleeps (trace w2) = sleeps (trace w) @ [wt]"
      by (simp_all add: w2_def after_failure_simps send_simps)
    have p: "k' \<le> length waits" "\<forall>i<k'. \<not> succeeds (snd (replies w2 i))"
      "k' < length waits \<longrightarrow> succeeds (snd (replies w2 k'))"
      using Cons.prems Suc by (auto simp: rw2)
    from Cons.IH[OF p, of "Suc a"] show ?thesis
      unfolding step by (simp add: tr2 rw2 Suc replicate_append_same)
  qed
qed

lemma failed_attempts_le: "failed_attempts waits rs \<le> length waits"
  unfolding failed_attempts_def
  by (metis length_takeWhile_le length_upt minus_nat.diff_0)

lemma failed_attempts_fail:
  assumes "i < failed_attempts waits rs"
  shows "\<not> succeeds (snd (rs i))"
proof -
  let ?P = "\<lambda>i. \<not> succeeds (snd (rs i))"
  let ?xs = "[0..<length waits]"
  from assms have il: "i < length (takeWhile ?P ?xs)" by (simp add: failed_attempts_def)
  then have "takeWhile ?P ?xs ! i \<in> set (takeWhile ?P ?xs)" by simp
  then have "?P (takeWhile ?P ?xs ! i)" by (rule set_takeWhileD[THEN conjunct2])
  moreover have "takeWhile ?P ?xs ! i = ?xs ! i" using il by (rule takeWhile_nth)
  moreover have "i < length waits" using il length_takeWhile_le[of ?P ?xs] by simp
  ultimately show ?thesis by simp
qed

lemma failed_attempts_success:
  assumes "failed_attempts waits rs < length waits"
  shows "succeeds (snd (rs (failed_attempts waits rs)))"
proof -
  let ?P = "\<lambda>i. \<not> succeeds (snd (rs i))"
  let ?xs = "[0..<length waits]"
  from assms have "length (takeWhile ?P ?xs) < length ?xs" by (simp add: failed_attempts_def)
  then have "\<not> ?P (?xs ! length (takeWhile ?P ?xs))" by (rule nth_length_takeWhile)
  with assms show ?thesis by (simp add: failed_attempts_def)
qed

section \<open>Locks, tokens and traces\<close>

lemma acquire_can: "can_lock c \<Longrightarrow> acquire c = Some (c\<lparr>lock_depth := Suc (lock_depth c)\<rparr>)"
  by (simp add: acquire_def can_lock_def)

lemma acquire_cannot: "\<not> can_lock c \<Longrightarrow> acquire c = None"
  by (simp add: acquire_def can_lock_def)

lemma release_Suc: "release (c\<lparr>lock_depth := Suc (lock_depth c)\<rparr>) = c"
  by (simp add: release_def)

lemma is_token_expired_can:
  "can_lock c \<Longrightarrow> is_token_expired c w = (Return (expiry_passed (token_expiry c) (now w)), c)"
  by (simp add: is_token_expired_def acquire_can release_def)

lemma is_token_expired_cannot: "\<not> can_lock c \<Longrightarrow> is_token_expired c w = (Blocked, c)"
  by (simp add: is_token_expired_def acquire_cannot)

lemma py_get_not_Blocked: "py_get d k \<noteq> Blocked"
  by (cases d) simp_all

lemma store_token_cannot: "\<not> can_lock c \<Longrightarrow> store_token c w r = (Blocked, c)"
  by (simp add: store_token_def acquire_cannot)


lemma store_token_not_Return_keeps:
  "store_token c w r = (res, c') \<Longrightarrow> res \<noteq> Return () \<Longrightarrow> token c' = token c \<and> token_expiry c' = token_expiry c"
  by (auto simp: store_token_def acquire_def release_def split: option.splits result.splits if_splits)

lemma retry_loop_trace:
  "\<exists>tr. trace (snd (retry_loop a waits w req)) = trace w @ Sent req # tr"
proof (induction waits arbitrary: a w)
  case Nil
  show ?case by (simp add: retry_loop_Nil send_simps)
next
  case (Cons wt waits)
  show ?case
  proof (cases "succeeds (fst (send w req))")
    case True
    then show ?thesis by (simp add: retry_loop_Cons send_simps)
  next
    case False
    define w2 where "w2 = after_failure a wt (fst (send w req)) (snd (send w req))"
    have "\<exists>tr. trace w2 = trace w @ Sent req # tr"
      by (cases "fst (send w req)")
         (simp_all add: w2_def after_failure_def sleep_def log_error_def send_simps)
    then obtain tr where t2: "trace w2 = trace w @ Sent req # tr" by blast
    from Cons.IH[of "Suc a" w2] obtain tr' where
      "trace (snd (retry_loop (Suc a) waits w2 req)) = trace w2 @ Sent req # tr'" by blast
    with False show ?thesis by (simp add: retry_loop_Cons w2_def[symmetric] t2)
  qed
qed

lemma perform_trace:
  "\<exists>tr. trace (snd (perform_request_with_retries c w act u hdrs ps d))
      = trace w @ Sent (request_of c act u hdrs ps d) # tr"
  by (simp add: perform_request_with_retries_def retry_loop_trace)

lemma perform_trace_ext:
  "\<exists>tr. trace (snd (perform_request_with_retries c w act u hdrs ps d)) = trace w @ tr"
  using perform_trace[of c w act u hdrs ps d] by blast

lemma perform_not_Blocked: "fst (perform_request_with_retries c w act u hdrs ps d) \<noteq> Blocked"
proof -
  have "fst (retry_loop a waits w req) \<noteq> Blocked" for a waits w req
  proof (induction waits arbitrary: a w)
    case Nil
    show ?case by (cases "fst (send w req)") (simp_all add: retry_loop_Nil)
  next
    case (Cons wt waits)
    show ?case using Cons.IH
      by (cases "fst (send w req)") (simp_all add: retry_loop_Cons)
  qed
  then show ?thesis by (simp add: perform_request_with_retries_def)
qed

lemma login_world:
  "snd (snd (login c w url0)) =
     snd (perform_request_with_retries c w ''POST''
            (if url0 = [] then ''https://'' @ api c @ ''/login'' else url0)
            (json_headers c) PNone
            (Some (PDict [(''username'', identity c), (''password'', secret c)])))"
  by (simp add: login_def Let_def split: prod.splits result.splits)

lemma extend_login_world:
  "snd (snd (extend_login c w)) =
     snd (perform_request_with_retries c w ''GET'' (''https://'' @ api c @ ''/auth_token/extend'')
            (auth_headers c) PNone None)"
  by (simp add: extend_login_def Let_def split: prod.splits result.splits)

lemma handle_response_trace:
  "\<exists>tr. trace (snd (handle_response w r force paginated results more0 bp hdrs)) = trace w @ tr"
  by (simp add: handle_response_def log_error_def
           split: option.splits result.splits pyval.splits)

lemma renew_if_expired_trace:
  "\<exists>tr. trace (snd (snd (renew_if_expired c w))) = trace w @ tr"
proof -
  obtain ex c1 where e: "is_token_expired c w = (ex, c1)" by (cases "is_token_expired c w")
  show ?thesis
  proof (cases "ex = Return True")
    case True
    then show ?thesis using e
      by (simp add: renew_if_expired_def extend_login_world perform_trace_ext)
  next
    case False
    then show ?thesis using e
      by (cases ex) (simp_all add: renew_if_expired_def)
  qed
qed

lemma page_step_trace:
  "\<exists>tr. trace (snd (snd (page_step c w act ep qp bp rh force paginated results more0)))
      = trace w @ tr"
proof -
  obtain r2 c2 w2 where x2: "renew_if_expired c w = (r2, c2, w2)"
    by (cases "renew_if_expired c w")
  from renew_if_expired_trace[of c w] x2 obtain tr2 where tr2: "trace w2 = trace w @ tr2"
    by auto
  define u where "u = ''https://'' @ api c2 @ ''/'' @ ep"
  define hdrs where "hdrs = (if falsy_headers rh then auth_headers c2 else the rh)"
  define d where "d = (if truthy bp then Some bp else None)"
  obtain r3 w3 where p3: "perform_request_with_retries c2 w2 act u hdrs qp d = (r3, w3)"
    by (cases "perform_request_with_retries c2 w2 act u hdrs qp d")
  from perform_trace_ext[of c2 w2 act u hdrs qp d] p3 obtain tr3 where tr3: "trace w3 = trace w2 @ tr3"
    by auto
  show ?thesis
  proof (cases r2)
    case (Return un)
    show ?thesis
    proof (cases r3)
      case (Return resp)
      obtain st w4 where h: "handle_response w3 resp force paginated results more0 bp hdrs = (st, w4)"
        by (cases "handle_response w3 resp force paginated results more0 bp hdrs")
      from handle_response_trace[of w3 resp force paginated results more0 bp hdrs] h
      obtain tr4 where "trace w4 = trace w3 @ tr4" by auto
      then show ?thesis using x2 \<open>r2 = Return un\<close> p3 Return h tr2 tr3
        by (simp add: page_step_def u_def hdrs_def d_def)
    next
      case (Raise err)
      then show ?thesis using x2 \<open>r2 = Return un\<close> p3 tr2 tr3
        by (simp add: page_step_def u_def hdrs_def d_def)
    next
      case Blocked
      then show ?thesis using x2 \<open>r2 = Return un\<close> p3 tr2 tr3
        by (simp add: page_step_def u_def hdrs_def d_def)
    qed
  next
    case (Raise err)
    then show ?thesis using x2 tr2 by (simp add: page_step_def)
  next
    case Blocked
    then show ?thesis using x2 tr2 by (simp add: page_step_def)
  qed
qed

lemma execute_loop_trace:
  "execute_loop fuel c w act ep qp bp rh force paginated results more0 = Some (res, c', w')
   \<Longrightarrow> \<exists>tr. trace w' = trace w @ tr"
proof (induction fuel arbitrary: c w bp rh results more0)
  case 0
  then show ?case by (simp split: if_splits)
next
  case (Suc fuel)
  show ?case
  proof (cases "truthy more0")
    case False
    with Suc.prems show ?thesis by simp
  next
    case True
    obtain st c1 w1 where ps: "page_step c w act ep qp bp rh force paginated results more0 = (st, c1, w1)"
      by (cases "page_step c w act ep qp bp rh force paginated results more0")
    from page_step_trace[of c w act ep qp bp rh force paginated results more0] ps
    obtain tr1 where tr1: "trace w1 = trace w @ tr1" by auto
    show ?thesis
    proof (cases st)
      case (Stop r)
      with Suc.prems True ps tr1 show ?thesis by simp
    next
      case (Again results1 more1 bp1 rh1)
      with Suc.prems True ps have
        "execute_loop fuel c1 w1 act ep qp bp1 rh1 force paginated results1 more1 = Some (res, c', w')"
        by simp
      from Suc.IH[OF this] tr1 show ?thesis by auto
    qed
  qed
qed

lemma ensure_token_no_token:
  "can_lock c \<Longrightarrow> \<not> truthy (token c) \<Longrightarrow>
   ensure_token c w = with_release (login (c\<lparr>lock_depth := Suc (lock_depth c)\<rparr>) w [])"
  by (simp add: ensure_token_def acquire_can)

lemma with_release_world: "snd (snd (with_release x)) = snd (snd x)"
  by (cases x; cases "fst x") (simp_all add: with_release_def)

lemma login_sends_login_request:
  "\<exists>tr. trace (snd (snd (login c w []))) = trace w @ Sent (login_request c) # tr"
  using perform_trace[of c w "''POST''" "''https://'' @ api c @ ''/login''" "json_headers c" PNone
      "Some (PDict [(''username'', identity c), (''password'', secret c)])"]
  by (simp add: login_world login_request_def)

lemma login_request_lock_depth [simp]: "login_request (c\<lparr>lock_depth := n\<rparr>) = login_request c"
  by (simp add: login_request_def request_of_def json_headers_def)

lemma ensure_token_fresh_trace:
  assumes "can_lock c" "\<not> truthy (token c)"
  shows "\<exists>tr. trace (snd (snd (ensure_token c w))) = trace w @ Sent (login_request c) # tr"
  using login_sends_login_request[of "c\<lparr>lock_depth := Suc (lock_depth c)\<rparr>" w]
  by (simp add: ensure_token_no_token[OF assms] with_release_world)

lemma loop_pass:
  assumes "truthy more0"
    and "renew_if_expired c w = (Return (), c2, w2)"
    and "fetch c2 w2 act ep qp bp rh = (Return r, w3)"
  shows "execute_loop (Suc fuel) c w act ep qp bp rh force paginated results more0 =
     (case handle_response w3 r force paginated results more0 bp (effective_headers c2 rh) of
        (Stop res, w4) \<Rightarrow> Some (res, c2, w4)
      | (Again results1 more1 bp1 rh1, w4) \<Rightarrow>
          execute_loop fuel c2 w4 act ep qp bp1 rh1 force paginated results1 more1)"
  using assms
  by (simp add: page_step_def fetch_def effective_headers_def split: prod.splits step.splits)

lemma handle_response_empty:
  "ok r \<Longrightarrow> content r = [] \<Longrightarrow>
   handle_response w r force paginated results more0 bp hdrs = (Stop (Return PNone), w)"
  by (simp add: handle_response_def)

lemma handle_response_gzip:
  "ok r \<Longrightarrow> content r \<noteq> [] \<Longrightarrow> content_type r = Some ''application/x-gzip'' \<Longrightarrow>
   handle_response w r force paginated results more0 bp hdrs
     = (Stop (Return (PBytes (content r))), w)"
  by (simp add: handle_response_def)

lemma handle_response_csv:
  "ok r \<Longrightarrow> content r \<noteq> [] \<Longrightarrow> content_type r = Some ''text/csv'' \<Longrightarrow> utf8 r = Some s \<Longrightarrow>
   handle_response w r force paginated results more0 bp hdrs = (Stop (Return (PStr s)), w)"
  by (simp add: handle_response_def)



lemma handle_response_no_items:
  "ok r \<Longrightarrow> json_kind r \<Longrightarrow> json_body r = Some (PDict kvs) \<Longrightarrow> map_of kvs ''items'' = None \<Longrightarrow>
   handle_response w r force True results more0 bp hdrs = (Stop (Raise (KeyError ''items'')), w)"
  by (simp add: handle_response_def json_kind_def)

lemma handle_response_not_ok:
  "\<not> ok r \<Longrightarrow>
   handle_response w r force paginated results more0 bp hdrs
     = (Again results more0 bp (Some hdrs), log_error w API_error_response)"
  by (simp add: handle_response_def)

lemma handle_response_page:
  "ok r \<Longrightarrow> json_kind r \<Longrightarrow> json_body r = Some (PDict kvs) \<Longrightarrow>
   map_of kvs ''items'' = Some (PList xs) \<Longrightarrow>
   handle_response w r force True results more0 bp hdrs =
     (case map_of kvs ''nextPageToken'' of
        None \<Rightarrow> (Again (results @ xs) (PBool False) bp (Some hdrs), w)
      | Some npt \<Rightarrow>
          (Again (results @ xs) npt (if truthy npt then PDict [(''pageToken'', npt)] else bp)
             (Some hdrs), w))"
  by (simp add: handle_response_def json_kind_def)

lemma renew_if_expired_valid:
  "can_lock c \<Longrightarrow> \<not> expiry_passed (token_expiry c) (now w) \<Longrightarrow>
   renew_if_expired c w = (Return (), c, w)"
  by (simp add: renew_if_expired_def is_token_expired_can)

declare execute_loop.simps [simp del]

lemma execute_loop_done:
  "\<not> truthy more0 \<Longrightarrow>
   execute_loop fuel c w act ep qp bp rh force paginated results more0
     = Some (Return (PList results), c, w)"
  by (simp add: execute_loop.simps)

lemma upcoming_Suc: "upcoming w (Suc n) = replies w 0 # upcoming (snd (send w q)) n"
  by (simp add: upcoming_def send_simps upt_rec[of 0 "Suc n"] map_Suc_upt[symmetric] del: upt_Suc)

lemma first_attempt:
  assumes "fst (send w req) = Response p" "ok p"
  shows "retry_loop a waits w req = (Return p, snd (send w req))"
  using assms by (cases waits) (simp_all add: retry_loop_Nil retry_loop_Cons)

lemma fetch_first_attempt:
  assumes "snd (replies w 0) = Response p" "ok p"
  shows "fetch c w act ep qp bp rh = (Return p, snd (send w (data_request c act ep qp bp rh)))"
  using assms
  by (simp add: fetch_def perform_request_with_retries_def data_request_def effective_headers_def
        first_attempt send_simps)

lemma handle_response_well_formed:
  assumes "well_formed_page p"
  shows "handle_response w p force True results more0 bp hdrs =
     (Again (results @ items_of p) (next_page_token p)
        (if continues p then PDict [(''pageToken'', next_page_token p)] else bp) (Some hdrs), w)"
proof -
  from assms obtain kvs xs where j: "json_body p = Some (PDict kvs)" "map_of kvs ''items'' = Some (PList xs)"
    by (auto simp: well_formed_page_def page_items_def split: option.splits pyval.splits)
  from assms have o: "ok p" "json_kind p" by (simp_all add: well_formed_page_def)
  show ?thesis
    by (simp add: handle_response_page[OF o j] items_of_def page_items_def next_page_token_def
          continues_def j split: option.splits)
qed

lemma effective_headers_nonempty: "effective_headers c rh \<noteq> []"
  by (cases rh) (auto simp: effective_headers_def falsy_headers_def auth_headers_def)

lemma effective_headers_idem [simp]:
  "effective_headers c (Some (effective_headers c rh)) = effective_headers c rh"
  using effective_headers_nonempty[of c rh]
  by (simp add: effective_headers_def[of c "Some _"] falsy_headers_def)

lemma valid_at_each_fetch_iff:
  "valid_at_each_fetch c w n =
     (\<forall>i<n. \<not> expiry_passed (token_expiry c) (now w + sum_list (map fst (upcoming w i))))"
  by (auto simp: valid_at_each_fetch_def list_all_iff)

lemma valid_at_each_fetch_0:
  assumes "valid_at_each_fetch c w (Suc n)"
  shows "\<not> expiry_passed (token_expiry c) (now w)"
proof -
  from assms have "\<not> expiry_passed (token_expiry c) (now w + sum_list (map fst (upcoming w 0)))"
    unfolding valid_at_each_fetch_iff by blast
  then show ?thesis by (simp add: upcoming_def)
qed

lemma valid_at_each_fetch_Suc:
  assumes "valid_at_each_fetch c w (Suc n)"
  shows "valid_at_each_fetch c (snd (send w q)) n"
  unfolding valid_at_each_fetch_iff
proof (intro allI impI)
  fix i assume "i < n"
  then have "Suc i < Suc n" by simp
  with assms have "\<not> expiry_passed (token_expiry c) (now w + sum_list (map fst (upcoming w (Suc i))))"
    unfolding valid_at_each_fetch_iff by blast
  then show "\<not> expiry_passed (token_expiry c)
           (now (snd (send w q)) + sum_list (map fst (upcoming (snd (send w q)) i)))"
    by (simp add: upcoming_Suc[of w i q] send_simps add.assoc)
qed

lemma loop_after_pages:
  assumes "can_lock c"
  shows "truthy more0 \<Longrightarrow> list_all well_formed_page ps \<Longrightarrow> list_all continues ps \<Longrightarrow>
     map snd (upcoming w (length ps)) = map Response ps \<Longrightarrow>
     valid_at_each_fetch c w (length ps) \<Longrightarrow>
     execute_loop (length ps + fuel) c w act ep qp bp rh force True results more0 =
     execute_loop fuel c (served w (page_requests c act ep qp bp rh ps)) act ep qp
       (body_after bp ps) (headers_after c rh ps) force True
       (results @ concat (map items_of ps)) (more_after more0 ps)"
proof (induction ps arbitrary: w bp rh results more0)
  case Nil
  show ?case by (simp add: body_after_def headers_after_def more_after_def del: execute_loop.simps)
next
  case (Cons p ps)
  let ?q = "data_request c act ep qp bp rh"
  let ?w1 = "snd (send w ?q)"
  let ?bp1 = "PDict [(''pageToken'', next_page_token p)]"
  let ?rh1 = "Some (effective_headers c rh)"
  from Cons.prems have wf: "well_formed_page p" and co: "continues p"
    and wfs: "list_all well_formed_page ps" and cos: "list_all continues ps" by simp_all
  from Cons.prems(4) have r0: "snd (replies w 0) = Response p"
    and rs: "map snd (upcoming ?w1 (length ps)) = map Response ps"
    by (simp_all add: upcoming_Suc[of w "length ps" ?q])
  from Cons.prems(5) have v0: "\<not> expiry_passed (token_expiry c) (now w)"
    and vs: "valid_at_each_fetch c ?w1 (length ps)"
    by (auto dest: valid_at_each_fetch_0 valid_at_each_fetch_Suc)
  have rn: "renew_if_expired c w = (Return (), c, w)"
    using assms v0 by (rule renew_if_expired_valid)
  have ft: "fetch c w act ep qp bp rh = (Return p, ?w1)"
    using r0 wf by (simp add: fetch_first_attempt well_formed_page_def)
  have t1: "truthy (next_page_token p)" using co by (simp add: continues_def)
  have "execute_loop (length (p # ps) + fuel) c w act ep qp bp rh force True results more0
      = execute_loop (length ps + fuel) c ?w1 act ep qp ?bp1 ?rh1 force True
          (results @ items_of p) (next_page_token p)"
    using loop_pass[OF Cons.prems(1) rn ft, of "length ps + fuel" force True results]
    by (simp add: handle_response_well_formed[OF wf] co del: execute_loop.simps)
  also have "\<dots> = execute_loop fuel c (served ?w1 (page_requests c act ep qp ?bp1 ?rh1 ps)) act ep qp
       (body_after ?bp1 ps) (headers_after c ?rh1 ps) force True
       ((results @ items_of p) @ concat (map items_of ps)) (more_after (next_page_token p) ps)"
    by (rule Cons.IH[OF t1 wfs cos rs vs])
  also have "\<dots> = execute_loop fuel c (served w (page_requests c act ep qp bp rh (p # ps))) act ep qp
       (body_after bp (p # ps)) (headers_after c rh (p # ps)) force True
       (results @ concat (map items_of (p # ps))) (more_after more0 (p # ps))"
    by (simp add: body_after_def headers_after_def more_after_def del: execute_loop.simps)
  finally show ?case .
qed

lemma served_simps:
  "trace (served w qs) = trace w @ map Sent qs"
  "replies (served w qs) = (\<lambda>k. replies w (k + length qs))"
  "now (served w qs) = now w + sum_list (map fst (upcoming w (length qs)))"
proof (induction qs arbitrary: w)
  case Nil
  { case 1 show ?case by simp }
  { case 2 show ?case by simp }
  { case 3 show ?case by (simp add: upcoming_def) }
next
  case (Cons q qs)
  { case 1 show ?case by (simp add: Cons.IH send_simps) }
  { case 2 show ?case by (simp add: Cons.IH send_simps) }
  { case 3 show ?case by (simp add: Cons.IH send_simps upcoming_Suc[of w "length qs" q] add.assoc) }
qed

lemma length_page_requests [simp]: "length (page_requests c act ep qp bp rh ps) = length ps"
  by (induction ps arbitrary: bp rh) simp_all

lemma sent_requests_map_Sent [simp]: "sent_requests (map Sent qs) = qs"
  by (induction qs) simp_all

lemma data_request_idem [simp]:
  "data_request c act ep qp bp (Some (effective_headers c rh)) = data_request c act ep qp bp rh"
  using effective_headers_idem[of c rh]
  by (simp add: data_request_def effective_headers_def del: effective_headers_idem)

lemma page_requests_snoc:
  "page_requests c act ep qp bp rh (xs @ [l]) =
     page_requests c act ep qp bp rh xs
       @ [data_request c act ep qp (body_after bp xs) (headers_after c rh xs)]"
proof (induction xs arbitrary: bp rh)
  case Nil
  show ?case by (simp add: body_after_def headers_after_def)
next
  case (Cons x xs)
  show ?case by (simp add: Cons.IH body_after_def headers_after_def)
qed

lemma served_snoc: "served w (qs @ [q]) = snd (send (served w qs) q)"
  by (induction qs arbitrary: w) simp_all

lemma final_page:
  assumes "can_lock c" "truthy more0" "well_formed_page p" "\<not> continues p"
    and "snd (replies w 0) = Response p" "\<not> expiry_passed (token_expiry c) (now w)"
  shows "execute_loop (Suc fuel) c w act ep qp bp rh force True results more0 =
     Some (Return (PList (results @ items_of p)), c, snd (send w (data_request c act ep qp bp rh)))"
proof -
  have rn: "renew_if_expired c w = (Return (), c, w)"
    using assms(1,6) by (rule renew_if_expired_valid)
  have ft: "fetch c w act ep qp bp rh = (Return p, snd (send w (data_request c act ep qp bp rh)))"
    using assms(3,5) by (simp add: fetch_first_attempt well_formed_page_def)
  have nt: "\<not> truthy (next_page_token p)" using assms(4) by (simp add: continues_def)
  show ?thesis
    using loop_pass[OF assms(2) rn ft, of fuel force True results] nt
    by (simp add: handle_response_well_formed[OF assms(3)] assms(4) execute_loop_done)
qed

lemma loop_all_pages:
  assumes "can_lock c" "truthy more0" "ps \<noteq> []" "list_all well_formed_page ps"
    and "list_all continues (butlast ps)" "\<not> continues (last ps)"
    and "map snd (upcoming w (length ps)) = map Response ps"
    and "valid_at_each_fetch c w (length ps)"
    and "length ps \<le> fuel"
  shows "execute_loop fuel c w act ep qp bp rh force True results more0 =
     Some (Return (PList (results @ concat (map items_of ps))), c,
           served w (page_requests c act ep qp bp rh ps))"
proof -
  define xs where "xs = butlast ps"
  define l where "l = last ps"
  have ps: "ps = xs @ [l]" using assms(3) by (simp add: xs_def l_def)
  have "Suc (length xs) \<le> fuel" using assms(9) by (simp add: ps)
  then obtain f where fuel: "fuel = length xs + Suc f"
    using le_Suc_ex[of "Suc (length xs)" fuel] by auto
  have wfx: "list_all well_formed_page xs" and wfl: "well_formed_page l"
    using assms(4) by (simp_all add: ps)
  have cox: "list_all continues xs" using assms(5) by (simp add: xs_def)
  have ncl: "\<not> continues l" using assms(6) by (simp add: l_def)
  have up: "upcoming w (length ps) = upcoming w (length xs) @ [replies w (length xs)]"
    by (simp add: ps upcoming_def)
  have rx: "map snd (upcoming w (length xs)) = map Response xs"
    and rl: "snd (replies w (length xs)) = Response l"
    using assms(7) unfolding up by (simp_all add: ps)
  have vx: "valid_at_each_fetch c w (length xs)"
    and vl: "\<not> expiry_passed (token_expiry c) (now w + sum_list (map fst (upcoming w (length xs))))"
    using assms(8) by (simp_all add: valid_at_each_fetch_iff ps)
  let ?qs = "page_requests c act ep qp bp rh xs"
  let ?wx = "served w ?qs"
  have tm: "truthy (more_after more0 xs)"
    using assms(2) cox by (cases xs rule: rev_cases) (simp_all add: more_after_def continues_def)
  have r0: "snd (replies ?wx 0) = Response l" using rl by (simp add: served_simps)
  have v0: "\<not> expiry_passed (token_expiry c) (now ?wx)" using vl by (simp add: served_simps)
  have "execute_loop fuel c w act ep qp bp rh force True results more0 =
      execute_loop (Suc f) c ?wx act ep qp (body_after bp xs) (headers_after c rh xs) force True
        (results @ concat (map items_of xs)) (more_after more0 xs)"
    unfolding fuel by (rule loop_after_pages[OF assms(1,2) wfx cox rx vx])
  also have "\<dots> = Some (Return (PList ((results @ concat (map items_of xs)) @ items_of l)), c,
      snd (send ?wx (data_request c act ep qp (body_after bp xs) (headers_after c rh xs))))"
    by (rule final_page[OF assms(1) tm wfl ncl r0 v0])
  finally show ?thesis by (simp add: ps page_requests_snoc served_snoc)
qed

lemma store_token_Return:
  assumes "store_token c w r = (Return u, c')"
  shows "can_lock c \<and> lock_reentrant c' = lock_reentrant c \<and> lock_depth c' = lock_depth c"
proof (cases "can_lock c")
  case False
  with assms show ?thesis by (simp add: store_token_cannot)
next
  case True
  with assms show ?thesis
    by (auto simp: store_token_def acquire_can release_def split: option.splits result.splits)
qed

lemma login_Return:
  assumes "login c w u0 = (Return x, c', w')"
  shows "can_lock c \<and> lock_reentrant c' = lock_reentrant c \<and> lock_depth c' = lock_depth c"
proof -
  from assms obtain r w1 where "store_token c w1 r = (Return x, c')"
    by (auto simp: login_def Let_def split: prod.splits result.splits if_splits)
  then show ?thesis by (rule store_token_Return)
qed

lemma ensure_token_Return:
  assumes "ensure_token c w = (Return u, c1, w1)"
  shows "lock_reentrant c1 \<and> lock_depth c1 = lock_depth c"
proof -
  let ?c0 = "c\<lparr>lock_depth := Suc (lock_depth c)\<rparr>"
  have cl: "can_lock c" using assms by (cases "can_lock c") (simp_all add: ensure_token_def acquire_cannot)
  have nl: "can_lock ?c0 \<Longrightarrow> lock_reentrant c" by (simp add: can_lock_def)
  show ?thesis
  proof (cases "truthy (token c)")
    case False
    obtain r' c' w' where l: "login ?c0 w [] = (r', c', w')" by (cases "login ?c0 w []")
    with assms False cl have "r' = Return u" "c1 = release c'"
      by (auto simp: ensure_token_def acquire_can with_release_def split: result.splits)
    with l login_Return[of ?c0 w "[]" u c' w'] nl show ?thesis by (simp add: release_def)
  next
    case True
    show ?thesis
    proof (cases "can_lock ?c0")
      case False
      with assms True cl show ?thesis
        by (simp add: ensure_token_def acquire_can is_token_expired_cannot)
    next
      case c0: True
      show ?thesis
      proof (cases "expiry_passed (token_expiry c) (now w)")
        case False
        with assms True cl c0 nl show ?thesis
          by (auto simp: ensure_token_def acquire_can is_token_expired_can release_def)
      next
        case ex: True
        obtain r' c' w' where l: "login ?c0 w [] = (r', c', w')" by (cases "login ?c0 w []")
        with assms True cl c0 ex have "r' = Return u" "c1 = release c'"
          by (auto simp: ensure_token_def acquire_can is_token_expired_can with_release_def
                split: result.splits)
        with l login_Return[of ?c0 w "[]" u c' w'] nl show ?thesis by (simp add: release_def)
      qed
    qed
  qed
qed

lemma effective_headers_after [simp]:
  "effective_headers c (headers_after c rh ps) = effective_headers c rh"
  by (simp add: headers_after_def)

lemma data_request_after [simp]:
  "data_request c act ep qp bp (headers_after c rh ps) = data_request c act ep qp bp rh"
  by (simp add: headers_after_def)

lemma loop_pages_then:
  assumes "can_lock c" "truthy more0" "list_all well_formed_page ps" "list_all continues ps"
    and "map snd (upcoming w (Suc (length ps))) = map Response (ps @ [r])"
    and "valid_at_each_fetch c w (Suc (length ps))"
    and "ok r"
  shows "execute_loop (length ps + Suc fuel) c w act ep qp bp rh force True results more0 =
     (case handle_response (served w (page_requests c act ep qp bp rh (ps @ [r]))) r force True
             (results @ concat (map items_of ps)) (more_after more0 ps) (body_after bp ps)
             (effective_headers c rh) of
        (Stop res, w4) \<Rightarrow> Some (res, c, w4)
      | (Again results1 more1 bp1 rh1, w4) \<Rightarrow>
          execute_loop fuel c w4 act ep qp bp1 rh1 force True results1 more1)"
proof -
  have up: "upcoming w (Suc (length ps)) = upcoming w (length ps) @ [replies w (length ps)]"
    by (simp add: upcoming_def)
  have rx: "map snd (upcoming w (length ps)) = map Response ps"
    and rl: "snd (replies w (length ps)) = Response r"
    using assms(5) unfolding up by simp_all
  have vx: "valid_at_each_fetch c w (length ps)"
    and vl: "\<not> expiry_passed (token_expiry c) (now w + sum_list (map fst (upcoming w (length ps))))"
    using assms(6) by (simp_all add: valid_at_each_fetch_iff)
  let ?qs = "page_requests c act ep qp bp rh ps"
  let ?wx = "served w ?qs"
  let ?bpx = "body_after bp ps"
  let ?rhx = "headers_after c rh ps"
  have tm: "truthy (more_after more0 ps)"
    using assms(2,4) by (cases ps rule: rev_cases) (simp_all add: more_after_def continues_def)
  have r0: "snd (replies ?wx 0) = Response r" using rl by (simp add: served_simps)
  have v0: "\<not> expiry_passed (token_expiry c) (now ?wx)" using vl by (simp add: served_simps)
  have rn: "renew_if_expired c ?wx = (Return (), c, ?wx)"
    using assms(1) v0 by (rule renew_if_expired_valid)
  have ft: "fetch c ?wx act ep qp ?bpx ?rhx
      = (Return r, served w (page_requests c act ep qp bp rh (ps @ [r])))"
    using fetch_first_attempt[OF r0 assms(7), of c act ep qp ?bpx ?rhx]
    by (simp add: page_requests_snoc served_snoc)
  have "execute_loop (length ps + Suc fuel) c w act ep qp bp rh force True results more0 =
      execute_loop (Suc fuel) c ?wx act ep qp ?bpx ?rhx force True
        (results @ concat (map items_of ps)) (more_after more0 ps)"
    by (rule loop_after_pages[OF assms(1,2,3,4) rx vx])
  also note loop_pass[OF tm rn ft, of fuel force True "results @ concat (map items_of ps)"]
  finally show ?thesis by simp
qed

lemma loop_pass_not_ok:
  assumes "truthy more0"
    and "renew_if_expired c w = (Return (), c2, w2)"
    and "fetch c2 w2 act ep qp bp rh = (Return r, w3)"
    and "\<not> ok r"
  shows "execute_loop (Suc fuel) c w act ep qp bp rh force paginated results more0 =
     execute_loop fuel c2 (log_error w3 API_error_response) act ep qp bp
       (Some (effective_headers c2 rh)) force paginated results more0"
  by (simp add: loop_pass[OF assms(1-3)] handle_response_not_ok[OF assms(4)])

lemma fetch_no_retry:
  assumes "retry_waits c = []" "snd (replies w 0) = Response r"
  shows "fetch c w act ep qp bp rh = (Return r, snd (send w (data_request c act ep qp bp rh)))"
  using assms
  by (simp add: fetch_def perform_request_with_retries_def data_request_def effective_headers_def
        retry_loop_Nil send_simps)

lemma failing_loop_never_returns:
  assumes "can_lock c" "retry_waits c = []" "\<not> ok r" "truthy more0"
  shows "\<forall>k. replies w k = (0, Response r) \<Longrightarrow> \<not> expiry_passed (token_expiry c) (now w) \<Longrightarrow>
     execute_loop fuel c w act ep qp bp rh force paginated results more0 = None"
proof (induction fuel arbitrary: w rh)
  case 0
  show ?case using assms(4) by (simp add: execute_loop.simps)
next
  case (Suc fuel)
  let ?w3 = "snd (send w (data_request c act ep qp bp rh))"
  let ?w4 = "log_error ?w3 API_error_response"
  have rn: "renew_if_expired c w = (Return (), c, w)"
    using assms(1) Suc.prems(2) by (rule renew_if_expired_valid)
  have ft: "fetch c w act ep qp bp rh = (Return r, ?w3)"
    using assms(2) Suc.prems(1) by (simp add: fetch_no_retry)
  have a: "\<forall>k. replies ?w4 k = (0, Response r)"
    using Suc.prems(1) by (simp add: log_error_def send_simps)
  have b: "\<not> expiry_passed (token_expiry c) (now ?w4)"
    using Suc.prems by (simp add: log_error_def send_simps)
  show ?case
    unfolding loop_pass_not_ok[OF assms(4) rn ft assms(3)]
    by (rule Suc.IH[OF a b])
qed

lemma ensure_token_no_retry_world:
  assumes "can_lock c" "\<not> truthy (token c)" "retry_waits c = []"
  shows "snd (snd (ensure_token c w)) = snd (send w (login_request c))"
  using assms(3)
  by (simp add: ensure_token_no_token[OF assms(1,2)] with_release_world login_world
        perform_request_with_retries_def retry_loop_Nil login_request_def request_of_def
        json_headers_def)

lemma no_retry_client_simps:
  "can_lock no_retry_client" "\<not> truthy (token no_retry_client)"
  "retry_waits no_retry_client = []"
  by (simp_all add: no_retry_client_def rlock_client_def configured_client_def init_client_def
        can_lock_def)

lemma failing_server_after_login:
  "replies (snd (snd (ensure_token no_retry_client failing_server)))
     = (\<lambda>k. (0, Response (status_response 503)))"
  "now (snd (snd (ensure_token no_retry_client failing_server))) = 1001"
  unfolding ensure_token_no_retry_world[OF no_retry_client_simps]
  by (simp_all add: send_simps failing_server_def)

lemma failing_server_never_returns:
  "execute fuel no_retry_client failing_server act ep qp bp rh force paginated = None"
proof -
  let ?c1 = "no_retry_client\<lparr>token := PStr ''T1'', token_expiry := Some 1591\<rparr>"
  let ?w1 = "snd (snd (ensure_token no_retry_client failing_server))"
  have e1: "fst (ensure_token no_retry_client failing_server) = Return ()" by code_simp
  have e2: "fst (snd (ensure_token no_retry_client failing_server)) = ?c1" by code_simp
  have e: "ensure_token no_retry_client failing_server = (Return (), ?c1, ?w1)"
    using e1 e2 by (simp add: prod_eq_iff)
  have h: "can_lock ?c1" "retry_waits ?c1 = []" "\<not> ok (status_response 503)"
    "truthy (PBool True)"
    using no_retry_client_simps by (simp_all add: can_lock_def status_response_def ok_def)
  have v: "\<not> expiry_passed (token_expiry ?c1) (now ?w1)"
    unfolding failing_server_after_login(2) by (simp add: expiry_passed_def)
  have r: "\<forall>k. replies ?w1 k = (0, Response (status_response 503))"
    by (simp add: failing_server_after_login)
  show ?thesis
    unfolding execute_def
    by (subst e) (simp add: failing_loop_never_returns[OF h r v])
qed

lemma perform_lock_depth [simp]:
  "perform_request_with_retries (c\<lparr>lock_depth := n\<rparr>) w act u h p d
     = perform_request_with_retries c w act u h p d"
  by (simp add: perform_request_with_retries_def request_of_def)

lemma login_cases:
  "login c w [] =
     (case perform_request_with_retries c w ''POST'' (login_url c) (json_headers c) PNone
             (Some (credentials c)) of
        (Return r, w1) \<Rightarrow>
          if ok r then (fst (store_token c w1 r), snd (store_token c w1 r), w1)
          else (Raise (SystemExit (status_code r) (responded_with_an_error (login_url c) r) []),
                c, w1)
      | (Raise e, w1) \<Rightarrow> (Raise e, c, w1)
      | (Blocked, w1) \<Rightarrow> (Blocked, c, w1))"
  by (simp add: login_def login_url_def credentials_def error_and_exit_def Let_def
        split: prod.splits result.splits)


lemma login_failure:
  assumes "perform_request_with_retries c w ''POST'' (login_url c) (json_headers c) PNone
           (Some (credentials c)) = (Return r, w1)"
    and "\<not> ok r"
  shows "login c w [] =
     (Raise (SystemExit (status_code r) (responded_with_an_error (login_url c) r) []), c, w1)"
  using assms by (simp add: login_cases)

lemma login_cannot_lock:
  assumes "\<not> can_lock c"
  shows "fst (login c w []) \<noteq> Return u \<and>
         token (fst (snd (login c w []))) = token c \<and>
         token_expiry (fst (snd (login c w []))) = token_expiry c \<and>
         lock_depth (fst (snd (login c w []))) = lock_depth c"
  by (simp add: login_cases store_token_cannot[OF assms] split: prod.splits result.splits)

lemma with_release_fst: "fst (with_release x) = fst x"
  by (cases x; cases "fst x") (simp_all add: with_release_def)

lemma with_release_token:
  "token (fst (snd (with_release x))) = token (fst (snd x))"
  "token_expiry (fst (snd (with_release x))) = token_expiry (fst (snd x))"
  by (cases x; cases "fst x"; simp add: with_release_def release_def)+

lemma ensure_token_plain_lock:
  assumes "\<not> lock_reentrant c"
  shows "fst (ensure_token c w) \<noteq> Return u \<and>
         token (fst (snd (ensure_token c w))) = token c \<and>
         token_expiry (fst (snd (ensure_token c w))) = token_expiry c"
proof (cases "can_lock c")
  case False
  then show ?thesis by (simp add: ensure_token_def acquire_cannot)
next
  case True
  let ?c0 = "c\<lparr>lock_depth := Suc (lock_depth c)\<rparr>"
  have n0: "\<not> can_lock ?c0" using assms by (simp add: can_lock_def)
  show ?thesis
  proof (cases "truthy (token c)")
    case False
    with True login_cannot_lock[OF n0, of w u] show ?thesis
      by (simp add: ensure_token_no_token with_release_fst with_release_token)
  next
    case t: True
    with True show ?thesis
      by (simp add: ensure_token_def acquire_can is_token_expired_cannot[OF n0])
  qed
qed




lemma renewed_simps [simp]:
  "lock_depth (renewed c kvs t) = lock_depth c"
  "lock_reentrant (renewed c kvs t) = lock_reentrant c"
  "token (renewed c kvs t) = stored_token kvs"
  "token_expiry (renewed c kvs t) = Some (t + token_limit c)"
  "retry_waits (renewed c kvs t) = retry_waits c"
  "api (renewed c kvs t) = api c"
  by (simp_all add: renewed_def)


lemma can_lock_renewed [simp]: "can_lock (renewed c kvs t) = can_lock c"
  by (simp add: can_lock_def)





section \<open>The claims\<close>

subsection \<open>Failed data requests (C1)\<close>

text \<open>
  C1, as the code has it. When the response after the final attempt is not a success,
  \<^verbatim>\<open>execute\<close> logs the error and goes round its loop again with the same request: it
  neither returns the partial results nor raises. With the first page served, the seven
  attempts at the second page answered by 503 and the page served afterwards, the
  paginated call returns all three items after ten requests (with fuel for two passes only
  it is still running); and against a server that answers every request with 503 at once,
  on a client that does not retry, the call never returns, paginated or not.
\<close>

theorem failed_fetch_is_fetched_again:
  "map_option fst (execute 3 rlock_client recovering_server
                     ''GET'' ''alert'' PNone PNone None False True)
     = Some (Return (PList [PInt 1, PInt 2, PInt 3])) \<and>
   map_option (\<lambda>x. logged (trace (snd (snd x))))
      (execute 3 rlock_client recovering_server ''GET'' ''alert'' PNone PNone None False True)
     = Some [API_error_response] \<and>
   map_option (\<lambda>x. length (sent_requests (trace (snd (snd x)))))
      (execute 3 rlock_client recovering_server ''GET'' ''alert'' PNone PNone None False True)
     = Some 10 \<and>
   execute 2 rlock_client recovering_server ''GET'' ''alert'' PNone PNone None False True = None \<and>
   (\<forall>fuel. execute fuel no_retry_client failing_server
                  ''GET'' ''alert'' PNone PNone None False True = None) \<and>
   (\<forall>fuel. execute fuel no_retry_client failing_server
                  ''GET'' ''alert'' PNone PNone None False False = None)"
proof -
  have a: "map_option fst (execute 3 rlock_client recovering_server
                     ''GET'' ''alert'' PNone PNone None False True)
     = Some (Return (PList [PInt 1, PInt 2, PInt 3]))" by code_simp
  have b: "map_option (\<lambda>x. logged (trace (snd (snd x))))
      (execute 3 rlock_client recovering_server ''GET'' ''alert'' PNone PNone None False True)
     = Some [API_error_response]" by code_simp
  have c: "map_option (\<lambda>x. length (sent_requests (trace (snd (snd x)))))
      (execute 3 rlock_client recovering_server ''GET'' ''alert'' PNone PNone None False True)
     = Some 10" by code_simp
  have d: "execute 2 rlock_client recovering_server ''GET'' ''alert'' PNone PNone None False True
     = None" by code_simp
  from a b c d show ?thesis by (simp add: failing_server_never_returns)
qed

subsection \<open>An expired token (C2)\<close>




subsection \<open>Pagination (C3)\<close>

text \<open>
  C3. Take a paginated call whose token block has completed, and let the server answer the
  data requests, each at its first attempt and while the token is valid, with a non-empty
  sequence of well-formed pages (JSON objects with an \<^verbatim>\<open>items\<close> array) of which every
  page but the last has a truthy \<^verbatim>\<open>nextPageToken\<close> and the last has none or a falsy one.
  Then \<^verbatim>\<open>execute\<close> returns the concatenation of the pages' items in page order, nothing
  added, removed or reordered; it sends exactly one data request per page, the first with
  the caller's body and each later one with the body \<^verbatim>\<open>{pageToken: nextPageToken}\<close> of the
  page before it; and it stops right after the first page that does not continue.
\<close>

theorem execute_paginated_concatenates_pages:
  assumes "ensure_token c w = (Return (), c1, w1)"
    and "ps \<noteq> []" "list_all well_formed_page ps"
    and "list_all continues (butlast ps)" "\<not> continues (last ps)"
    and "map snd (upcoming w1 (length ps)) = map Response ps"
    and "valid_at_each_fetch c1 w1 (length ps)"
    and "length ps \<le> fuel"
  shows "execute fuel c w act ep qp bp rh force True
           = Some (Return (PList (concat (map items_of ps))), c1,
                   served w1 (page_requests c1 act ep qp bp rh ps)) \<and>
         sent_requests (trace (served w1 (page_requests c1 act ep qp bp rh ps)))
           = sent_requests (trace w1) @ page_requests c1 act ep qp bp rh ps \<and>
         length (page_requests c1 act ep qp bp rh ps) = length ps"
proof -
  have "can_lock c1" using ensure_token_Return[OF assms(1)] by (simp add: can_lock_def)
  from loop_all_pages[OF this _ assms(2-8), of "PBool True" act ep qp bp rh force "[]"]
  show ?thesis using assms(1) by (simp add: execute_def served_simps)
qed

theorem execute_paginated_concatenates_pages_witness:
  "map_option fst (execute 2 rlock_client two_pages ''GET'' ''alert'' PNone PNone None False True)
     = Some (Return (PList [PInt 1, PInt 2, PInt 3])) \<and>
   map data (page_requests (rlock_client\<lparr>token := PStr ''T1'', token_expiry := Some 1591\<rparr>)
               ''GET'' ''alert'' PNone PNone None [page1, page2])
     = [None, Some (PDict [(''pageToken'', PStr ''A'')])]"
proof -
  let ?c1 = "rlock_client\<lparr>token := PStr ''T1'', token_expiry := Some 1591\<rparr>"
  let ?w1 = "snd (snd (ensure_token rlock_client two_pages))"
  have e1: "fst (ensure_token rlock_client two_pages) = Return ()" by code_simp
  have e2: "fst (snd (ensure_token rlock_client two_pages)) = ?c1" by code_simp
  have e: "ensure_token rlock_client two_pages = (Return (), ?c1, ?w1)"
    using e1 e2 by (simp add: prod_eq_iff)
  have h: "[page1, page2] \<noteq> []" "list_all well_formed_page [page1, page2]"
    "list_all continues (butlast [page1, page2])" "\<not> continues (last [page1, page2])"
    "length [page1, page2] \<le> 2"
    by (simp_all add: page1_def page2_def well_formed_page_def continues_def json_response_def
          ok_def json_kind_def page_items_def next_page_token_def)
  have u: "map snd (upcoming ?w1 (length [page1, page2])) = map Response [page1, page2]"
    by code_simp
  have v: "valid_at_each_fetch ?c1 ?w1 (length [page1, page2])" by code_simp
  have i: "concat (map items_of [page1, page2]) = [PInt 1, PInt 2, PInt 3]" by code_simp
  have d: "map data (page_requests ?c1 ''GET'' ''alert'' PNone PNone None [page1, page2])
     = [None, Some (PDict [(''pageToken'', PStr ''A'')])]" by code_simp
  have "execute 2 rlock_client two_pages ''GET'' ''alert'' PNone PNone None False True
      = Some (Return (PList (concat (map items_of [page1, page2]))), ?c1,
              served ?w1 (page_requests ?c1 ''GET'' ''alert'' PNone PNone None [page1, page2]))"
    using execute_paginated_concatenates_pages[OF e h(1-4) u v h(5)] by (rule conjunct1)
  then have "map_option fst (execute 2 rlock_client two_pages ''GET'' ''alert'' PNone PNone None False True)
      = Some (Return (PList (concat (map items_of [page1, page2]))))"
    by (simp only: option.map fst_conv)
  then show ?thesis unfolding i using d by (rule conjI)
qed

subsection \<open>A page without items (C4)\<close>

text \<open>
  C4, as amended. In a paginated call, a page that is a JSON object with no \<^verbatim>\<open>items\<close>
  key makes \<^verbatim>\<open>execute\<close> raise KeyError for \<^verbatim>\<open>items\<close>, whatever \<^verbatim>\<open>force\<close> is and
  whatever has been accumulated; the page is never taken for an empty page or for the end
  of the pagination. The error is not the one of a body that is not JSON, which
  \<^verbatim>\<open>force\<close> turns into the return of the accumulated results.
\<close>

theorem paginated_page_without_items_raises_KeyError:
  assumes "ensure_token c w = (Return (), c1, w1)"
    and "list_all well_formed_page ps" "list_all continues ps"
    and "map snd (upcoming w1 (Suc (length ps))) = map Response (ps @ [r])"
    and "valid_at_each_fetch c1 w1 (Suc (length ps))"
    and "ok r" "json_kind r" "json_body r = Some (PDict kvs)" "map_of kvs ''items'' = None"
  shows "execute (length ps + Suc fuel) c w act ep qp bp rh force True
           = Some (Raise (KeyError ''items''), c1,
                   served w1 (page_requests c1 act ep qp bp rh (ps @ [r])))"
proof -
  have cl: "can_lock c1" using ensure_token_Return[OF assms(1)] by (simp add: can_lock_def)
  have t: "truthy (PBool True)" by simp
  note lp = loop_pages_then[OF cl t assms(2-6), of fuel act ep qp bp rh force "[]", unfolded add_Suc_right]
  show ?thesis using assms(1)
    by (simp add: execute_def lp handle_response_no_items[OF assms(6-9)])
qed

theorem paginated_page_without_items_raises_KeyError_witness:
  "map_option fst (execute 2 rlock_client (page1_then page_without_items)
                     ''GET'' ''alert'' PNone PNone None True True)
     = Some (Raise (KeyError ''items''))"
proof -
  let ?w = "page1_then page_without_items"
  let ?c1 = "rlock_client\<lparr>token := PStr ''T1'', token_expiry := Some 1591\<rparr>"
  let ?w1 = "snd (snd (ensure_token rlock_client ?w))"
  have e1: "fst (ensure_token rlock_client ?w) = Return ()" by code_simp
  have e2: "fst (snd (ensure_token rlock_client ?w)) = ?c1" by code_simp
  have e: "ensure_token rlock_client ?w = (Return (), ?c1, ?w1)"
    using e1 e2 by (simp add: prod_eq_iff)
  have h: "list_all well_formed_page [page1]" "list_all continues [page1]"
    "ok page_without_items" "json_kind page_without_items"
    "json_body page_without_items = Some (PDict [(''total'', PInt 0)])"
    "map_of [(''total'', PInt 0)] ''items'' = None"
    by (simp_all add: page1_def well_formed_page_def continues_def json_response_def ok_def
          json_kind_def page_items_def next_page_token_def page_without_items_def)
  have u: "map snd (upcoming ?w1 (Suc (length [page1])))
             = map Response ([page1] @ [page_without_items])"
    by code_simp
  have v: "valid_at_each_fetch ?c1 ?w1 (Suc (length [page1]))" by code_simp
  from paginated_page_without_items_raises_KeyError[OF e h(1,2) u v h(3-6),
      where fuel = 0 and act = "''GET''" and ep = "''alert''" and qp = PNone and bp = PNone
        and rh = None and force = True]
  show ?thesis by (simp add: numeral_2_eq_2)
qed

text \<open>
  The claim as it was stated fails with \<^verbatim>\<open>force\<close> set: after the same first page, a
  page without \<^verbatim>\<open>items\<close> raises KeyError where a body that is not JSON returns the
  two items accumulated.
\<close>

theorem missing_items_is_not_governed_by_force:
  "map_option fst (execute 2 rlock_client (page1_then page_without_items)
                     ''GET'' ''alert'' PNone PNone None True True)
     = Some (Raise (KeyError ''items'')) \<and>
   map_option fst (execute 2 rlock_client (page1_then malformed_page)
                     ''GET'' ''alert'' PNone PNone None True True)
     = Some (Return (PList [PInt 1, PInt 2]))"
  by code_simp

subsection \<open>Retries (C5)\<close>

text \<open>
  C5. Let \<open>k\<close> be the number of attempts with a retry slot that fail before the first
  success (a network exception counts as a failure like any other). Then
  \<^verbatim>\<open>_perform_request_with_retries\<close> sends the request \<open>k + 1\<close> times, which is at most
  \<open>len(retry_waits) + 1\<close> and exactly that many when no attempt with a retry slot
  succeeds; it sleeps the first \<open>k\<close> configured delays, one after each failed attempt, and
  nothing follows the last attempt; and it hands back what that last attempt yields, which
  is the first successful response if there is one and the outcome of the final attempt
  otherwise.
\<close>

theorem perform_request_with_retries_attempts:
  "fst (perform_request_with_retries c w act u hdrs ps d)
     = final_outcome (snd (replies w (failed_attempts (retry_waits c) (replies w)))) \<and>
   sent_requests (trace (snd (perform_request_with_retries c w act u hdrs ps d)))
     = sent_requests (trace w)
       @ replicate (failed_attempts (retry_waits c) (replies w) + 1)
           (request_of c act u hdrs ps d) \<and>
   failed_attempts (retry_waits c) (replies w) + 1 \<le> length (retry_waits c) + 1 \<and>
   list_all (\<lambda>i. \<not> succeeds (snd (replies w i))) [0..<length (retry_waits c)]
     = (failed_attempts (retry_waits c) (replies w) + 1 = length (retry_waits c) + 1) \<and>
   sleeps (trace (snd (perform_request_with_retries c w act u hdrs ps d)))
     = sleeps (trace w) @ take (failed_attempts (retry_waits c) (replies w)) (retry_waits c) \<and>
   last (trace (snd (perform_request_with_retries c w act u hdrs ps d)))
     = Sent (request_of c act u hdrs ps d)"
proof -
  define k where "k = failed_attempts (retry_waits c) (replies w)"
  define req where "req = request_of c act u hdrs ps d"
  define out where "out = perform_request_with_retries c w act u hdrs ps d"
  have kl: "k \<le> length (retry_waits c)" unfolding k_def by (rule failed_attempts_le)
  have kf: "\<forall>i<k. \<not> succeeds (snd (replies w i))"
    unfolding k_def by (auto dest: failed_attempts_fail)
  have ks: "k < length (retry_waits c) \<longrightarrow> succeeds (snd (replies w k))"
    unfolding k_def by (auto dest: failed_attempts_success)
  have out: "out = retry_loop 1 (retry_waits c) w req"
    by (simp add: out_def req_def perform_request_with_retries_def request_of_def)
  note ch = retry_loop_char[OF kl kf ks, of 1 req, folded out]
  have all: "list_all (\<lambda>i. \<not> succeeds (snd (replies w i))) [0..<length (retry_waits c)]
           = (k + 1 = length (retry_waits c) + 1)"
  proof
    assume "list_all (\<lambda>i. \<not> succeeds (snd (replies w i))) [0..<length (retry_waits c)]"
    then have "\<not> k < length (retry_waits c)" using ks by (auto simp: list_all_iff)
    with kl show "k + 1 = length (retry_waits c) + 1" by simp
  next
    assume "k + 1 = length (retry_waits c) + 1"
    with kf show "list_all (\<lambda>i. \<not> succeeds (snd (replies w i))) [0..<length (retry_waits c)]"
      by (auto simp: list_all_iff)
  qed
  have "fst out = final_outcome (snd (replies w k)) \<and>
    sent_requests (trace (snd out)) = sent_requests (trace w) @ replicate (k + 1) req \<and>
    k + 1 \<le> length (retry_waits c) + 1 \<and>
    list_all (\<lambda>i. \<not> succeeds (snd (replies w i))) [0..<length (retry_waits c)]
      = (k + 1 = length (retry_waits c) + 1) \<and>
    sleeps (trace (snd out)) = sleeps (trace w) @ take k (retry_waits c) \<and>
    last (trace (snd out)) = Sent req"
    using ch kl all by simp
  then show ?thesis unfolding k_def req_def out_def .
qed

subsection \<open>Login under the lock (C6)\<close>

text \<open>
  C6, as the code has it. On a host whose lock is not re-entrant (the
  \<^verbatim>\<open>threading.Lock()\<close> of \<^verbatim>\<open>PrismaCloudAPI.__init__\<close>), \<^verbatim>\<open>execute\<close> calls
  \<^verbatim>\<open>login\<close> while it holds the lock, and \<^verbatim>\<open>login\<close> takes the lock again to store the
  token. So no call of \<^verbatim>\<open>execute\<close> gets past its first block: it ends blocked or with an
  exception, never with a result, and the token and its expiry are what they were. In
  particular, when the client has no token and the login POST succeeds, the call blocks
  for ever with the lock held and stores nothing.
\<close>

theorem execute_on_plain_lock_stores_no_token:
  assumes "\<not> lock_reentrant c"
  shows "(\<exists>res c' w'. execute fuel c w act ep qp bp rh force paginated = Some (res, c', w') \<and>
            (\<forall>v. res \<noteq> Return v) \<and> token c' = token c \<and> token_expiry c' = token_expiry c) \<and>
         (lock_depth c = 0 \<and> \<not> truthy (token c) \<and> ok r \<and>
          perform_request_with_retries c w ''POST'' (login_url c) (json_headers c) PNone
            (Some (credentials c)) = (Return r, w1)
          \<longrightarrow> execute fuel c w act ep qp bp rh force paginated
                = Some (Blocked, c\<lparr>lock_depth := 1\<rparr>, w1))"
proof
  obtain r1 c1 w1' where e: "ensure_token c w = (r1, c1, w1')" by (cases "ensure_token c w")
  from ensure_token_plain_lock[OF assms, of w] e
  have n: "r1 \<noteq> Return ()" "token c1 = token c" "token_expiry c1 = token_expiry c" by simp_all
  show "\<exists>res c' w'. execute fuel c w act ep qp bp rh force paginated = Some (res, c', w') \<and>
            (\<forall>v. res \<noteq> Return v) \<and> token c' = token c \<and> token_expiry c' = token_expiry c"
    using e n by (cases r1) (simp_all add: execute_def)
next
  show "lock_depth c = 0 \<and> \<not> truthy (token c) \<and> ok r \<and>
          perform_request_with_retries c w ''POST'' (login_url c) (json_headers c) PNone
            (Some (credentials c)) = (Return r, w1)
          \<longrightarrow> execute fuel c w act ep qp bp rh force paginated
                = Some (Blocked, c\<lparr>lock_depth := 1\<rparr>, w1)"
  proof
    assume a: "lock_depth c = 0 \<and> \<not> truthy (token c) \<and> ok r \<and>
          perform_request_with_retries c w ''POST'' (login_url c) (json_headers c) PNone
            (Some (credentials c)) = (Return r, w1)"
    let ?c0 = "c\<lparr>lock_depth := Suc 0\<rparr>"
    have cl: "can_lock c" using a by (simp add: can_lock_def)
    have n0: "\<not> can_lock ?c0" using assms by (simp add: can_lock_def)
    have st: "store_token ?c0 w1 r = (Blocked, ?c0)" by (rule store_token_cannot[OF n0])
    have "login ?c0 w [] = (Blocked, ?c0, w1)"
      using a by (simp add: login_cases st login_url_def credentials_def json_headers_def)
    then have "ensure_token c w = (Blocked, ?c0, w1)"
      using a cl by (simp add: ensure_token_no_token with_release_def)
    then show "execute fuel c w act ep qp bp rh force paginated
                = Some (Blocked, c\<lparr>lock_depth := 1\<rparr>, w1)"
      using a by (simp add: execute_def)
  qed
qed

theorem execute_on_plain_lock_stores_no_token_witness:
  "map_option (\<lambda>x. (fst x, token (fst (snd x)), token_expiry (fst (snd x))))
     (execute 1 configured_client login_only ''GET'' ''alert'' PNone PNone None False False)
     = Some (Blocked, PNone, None) \<and>
   ok (token_response ''T1'') \<and>
   fst (perform_request_with_retries configured_client login_only ''POST''
          (login_url configured_client) (json_headers configured_client) PNone
          (Some (credentials configured_client)))
     = Return (token_response ''T1'')"
proof -
  let ?c = configured_client
  let ?p = "perform_request_with_retries ?c login_only ''POST'' (login_url ?c) (json_headers ?c)
              PNone (Some (credentials ?c))"
  have h: "\<not> lock_reentrant ?c" "lock_depth ?c = 0" "\<not> truthy (token ?c)"
    "ok (token_response ''T1'')"
    by (simp_all add: configured_client_def init_client_def token_response_def json_response_def
          ok_def)
  have p1: "fst ?p = Return (token_response ''T1'')" by code_simp
  have p: "?p = (Return (token_response ''T1''), snd ?p)" using p1 by (simp add: prod_eq_iff)
  from execute_on_plain_lock_stores_no_token[OF h(1), where w = login_only and fuel = 1
      and r = "token_response ''T1''" and ?w1.0 = "snd ?p" and act = "''GET''" and ep = "''alert''"
      and qp = PNone and bp = PNone and rh = None and force = False and paginated = False]
  have "execute 1 ?c login_only ''GET'' ''alert'' PNone PNone None False False
      = Some (Blocked, ?c\<lparr>lock_depth := 1\<rparr>, snd ?p)"
    using h p by blast
  then show ?thesis using h(4) p1
    by (simp add: configured_client_def init_client_def)
qed

subsection \<open>Dispatch on the response (C7)\<close>



subsection \<open>Empty, gzip and CSV pages (C9)\<close>

text \<open>
  C9. In a paginated call, let the server first serve any number of well-formed continuing
  pages, whose items accumulate, and then answer the next request with a successful
  response \<open>r\<close>. If the body of \<open>r\<close> is empty, \<^verbatim>\<open>execute\<close> returns None; if its
  Content-Type is \<^verbatim>\<open>application/x-gzip\<close>, the raw bytes of \<open>r\<close>; if it is
  \<^verbatim>\<open>text/csv\<close>, the decoded text of \<open>r\<close>. In all three cases the result is that of
  this one response: the items accumulated before it are dropped.
\<close>

theorem paginated_special_body_discards_items:
  assumes "ensure_token c w = (Return (), c1, w1)"
    and "list_all well_formed_page ps" "list_all continues ps"
    and "map snd (upcoming w1 (Suc (length ps))) = map Response (ps @ [r])"
    and "valid_at_each_fetch c1 w1 (Suc (length ps))"
    and "ok r"
  shows "(content r = [] \<longrightarrow>
            execute (length ps + Suc fuel) c w act ep qp bp rh force True
              = Some (Return PNone, c1,
                      served w1 (page_requests c1 act ep qp bp rh (ps @ [r])))) \<and>
         (content r \<noteq> [] \<and> content_type r = Some ''application/x-gzip'' \<longrightarrow>
            execute (length ps + Suc fuel) c w act ep qp bp rh force True
              = Some (Return (PBytes (content r)), c1,
                      served w1 (page_requests c1 act ep qp bp rh (ps @ [r])))) \<and>
         (content r \<noteq> [] \<and> content_type r = Some ''text/csv'' \<and> utf8 r = Some s \<longrightarrow>
            execute (length ps + Suc fuel) c w act ep qp bp rh force True
              = Some (Return (PStr s), c1,
                      served w1 (page_requests c1 act ep qp bp rh (ps @ [r]))))"
proof -
  have cl: "can_lock c1" using ensure_token_Return[OF assms(1)] by (simp add: can_lock_def)
  have t: "truthy (PBool True)" by simp
  note lp = loop_pages_then[OF cl t assms(2-6), of fuel act ep qp bp rh force "[]", unfolded add_Suc_right]
  show ?thesis using assms(1,6)
    by (simp add: execute_def lp handle_response_empty handle_response_gzip handle_response_csv)
qed

theorem paginated_special_body_discards_items_witness:
  "map_option fst (execute 2 rlock_client (page1_then empty_response)
                     ''GET'' ''alert'' PNone PNone None False True)
     = Some (Return PNone)"
proof -
  let ?w = "page1_then empty_response"
  let ?c1 = "rlock_client\<lparr>token := PStr ''T1'', token_expiry := Some 1591\<rparr>"
  let ?w1 = "snd (snd (ensure_token rlock_client ?w))"
  have e1: "fst (ensure_token rlock_client ?w) = Return ()" by code_simp
  have e2: "fst (snd (ensure_token rlock_client ?w)) = ?c1" by code_simp
  have e: "ensure_token rlock_client ?w = (Return (), ?c1, ?w1)"
    using e1 e2 by (simp add: prod_eq_iff)
  have h: "list_all well_formed_page [page1]" "list_all continues [page1]"
    "ok empty_response" "content empty_response = []"
    by (simp_all add: page1_def well_formed_page_def continues_def json_response_def ok_def
          json_kind_def page_items_def next_page_token_def empty_response_def body_response_def)
  have u: "map snd (upcoming ?w1 (Suc (length [page1]))) = map Response ([page1] @ [empty_response])"
    by code_simp
  have v: "valid_at_each_fetch ?c1 ?w1 (Suc (length [page1]))" by code_simp
  from paginated_special_body_discards_items[OF e h(1,2) u v h(3),
      where fuel = 0 and act = "''GET''" and ep = "''alert''" and qp = PNone and bp = PNone
        and rh = None and force = False]
  show ?thesis using h(4) by (simp add: numeral_2_eq_2)
qed

subsection \<open>No recorded expiry (C10)\<close>

text \<open>
  C10. When no expiry is recorded (\<^verbatim>\<open>token_expiry\<close> is None or 0),
  \<^verbatim>\<open>is_token_expired\<close>, called by a thread that can take the lock, returns True. And
  on a freshly constructed client (no token, no expiry, lock free) the first block of
  \<^verbatim>\<open>execute\<close> sends the login request before anything else, so whatever
  \<^verbatim>\<open>execute\<close> goes on to do, the first request of the call is the login.
\<close>

theorem unset_expiry_is_expired_and_first_call_logs_in:
  "(can_lock c \<and> (token_expiry c = None \<or> token_expiry c = Some 0)
      \<longrightarrow> is_token_expired c w = (Return True, c)) \<and>
   (token c = PNone \<and> token_expiry c = None \<and> lock_depth c = 0 \<longrightarrow>
      (\<exists>rest. sent_requests (trace (snd (snd (ensure_token c w))))
                = sent_requests (trace w) @ login_request c # rest) \<and>
      (\<forall>res c' w'. execute fuel c w act ep qp bp rh force paginated = Some (res, c', w') \<longrightarrow>
         (\<exists>rest. sent_requests (trace w') = sent_requests (trace w) @ login_request c # rest)))"
proof (intro conjI impI allI)
  assume "can_lock c \<and> (token_expiry c = None \<or> token_expiry c = Some 0)"
  then show "is_token_expired c w = (Return True, c)"
    by (auto simp: is_token_expired_can expiry_passed_def)
next
  assume a: "token c = PNone \<and> token_expiry c = None \<and> lock_depth c = 0"
  then have cl: "can_lock c" "\<not> truthy (token c)" by (simp_all add: can_lock_def)
  from ensure_token_fresh_trace[OF cl, of w] obtain tr where
    tr: "trace (snd (snd (ensure_token c w))) = trace w @ Sent (login_request c) # tr" by blast
  show "\<exists>rest. sent_requests (trace (snd (snd (ensure_token c w))))
                = sent_requests (trace w) @ login_request c # rest"
    by (simp add: tr)
  fix res c' w'
  assume ex: "execute fuel c w act ep qp bp rh force paginated = Some (res, c', w')"
  obtain r1 c1 w1 where et: "ensure_token c w = (r1, c1, w1)" by (cases "ensure_token c w")
  with tr have t1: "trace w1 = trace w @ Sent (login_request c) # tr" by simp
  show "\<exists>rest. sent_requests (trace w') = sent_requests (trace w) @ login_request c # rest"
  proof (cases r1)
    case (Return u)
    with ex et have "execute_loop fuel c1 w1 act ep qp bp rh force paginated [] (PBool True)
        = Some (res, c', w')" by (simp add: execute_def)
    from execute_loop_trace[OF this] obtain tr' where "trace w' = trace w1 @ tr'" by blast
    then show ?thesis by (simp add: t1)
  next
    case (Raise e)
    with ex et have "w' = w1" by (simp add: execute_def)
    then show ?thesis by (simp add: t1)
  next
    case Blocked
    with ex et have "w' = w1" by (simp add: execute_def)
    then show ?thesis by (simp add: t1)
  qed
qed

theorem unset_expiry_is_expired_and_first_call_logs_in_witness:
  "is_token_expired init_client (world_at 1000 []) = (Return True, init_client) \<and>
   (\<exists>rest. sent_requests (trace (snd (snd (ensure_token init_client (world_at 1000 [])))))
             = login_request init_client # rest) \<and>
   (\<exists>res c' w'. execute 1 init_client (world_at 1000 []) ''GET'' ''alert'' PNone PNone None False False
             = Some (res, c', w') \<and>
        (\<exists>rest. sent_requests (trace w') = login_request init_client # rest))"
proof -
  have e: "execute 1 init_client (world_at 1000 []) ''GET'' ''alert'' PNone PNone None False False \<noteq> None"
    by code_simp
  have h: "can_lock init_client" "token_expiry init_client = None" "token init_client = PNone"
    "lock_depth init_client = 0" "trace (world_at 1000 []) = []"
    by (simp_all add: init_client_def can_lock_def world_at_def)
  from e obtain res c' w' where
    x: "execute 1 init_client (world_at 1000 []) ''GET'' ''alert'' PNone PNone None False False
          = Some (res, c', w')" by auto
  from unset_expiry_is_expired_and_first_call_logs_in
         [of init_client "world_at 1000 []" 1 "''GET''" "''alert''" PNone PNone None False False]
  show ?thesis using h x by auto
qed

end
